theory Spec2Isabelle
  imports Complex_Main "HOL-Library.Multiset"
begin

chapter \<open>Bubble-based answer extraction: the model of \<open>analyzeOmrImage\<close>\<close>

text \<open>
  The development follows \<^verbatim>\<open>src/components/UploadInterface.tsx\<close>, function
  \<^verbatim>\<open>analyzeOmrImage\<close> (lines 581 to 804), block by block.

  \<^item> A JavaScript \<^verbatim>\<open>number\<close> is a \<^typ>\<open>real\<close>: rounding of IEEE doubles, infinities and
    NaN are outside the model. The divisions of lines 661 and 721 are guarded in the
    source. The division by a group size in the merge (lines 766 to 770) is not: a
    zero size, for which JavaScript stores NaN, is the separate outcome \<open>NotANumber\<close>
    of the model. The division by \<^verbatim>\<open>lastRow.length\<close> (line 745) is on a row that has
    at least one member, as the rows are built.
  \<^item> OpenCV.js is not part of the repository. Its primitives are the fields of the record
    \<open>opencv\<close>, over a type \<open>'m\<close> of matrices and a type \<open>'c\<close> of contours; each field
    stands for the call with the constant arguments the source passes
    (kernel sizes, flags, block size).
  \<^item> Loading the image and drawing the debug canvas are DOM work and are not modelled:
    the model starts from the matrix \<^verbatim>\<open>src = cv.imread(canvas)\<close> and returns the
    fields \<^verbatim>\<open>questions\<close> and \<^verbatim>\<open>bubbles\<close> of the result.
\<close>

section \<open>Data\<close>

text \<open>
  Type \<^verbatim>\<open>Bubble\<close> (lines 517 to 524). The fields \<^verbatim>\<open>x\<close>, \<^verbatim>\<open>y\<close>, \<^verbatim>\<open>r\<close> carry the
  prefix \<open>bub_\<close>; the optional fields are options, \<open>None\<close> for \<^verbatim>\<open>undefined\<close>.
\<close>

record bubble =
  bub_x :: real
  bub_y :: real
  bub_r :: real
  contourIndex :: int
  filledRatio :: "real option"
  isFilled :: "bool option"

text \<open>
  Type \<^verbatim>\<open>Options\<close> (lines 532 to 539); \<open>None\<close> is an absent field. The field
  \<^verbatim>\<open>expectedOptions\<close> is a count in the source's comment and an integer here, negative
  values included.
\<close>

record options =
  minBubbleArea :: "real option"
  maxBubbleArea :: "real option"
  fillThreshold :: "real option"
  expectedOptions :: "int option"
  expectedQuestions :: "int option"
  debug :: "bool option"

text \<open>The defaults of lines 587 to 595, and \<^verbatim>\<open>options.fillThreshold ?? 0.35\<close>.\<close>

definition minArea :: "options \<Rightarrow> real" where
  "minArea opts = (case minBubbleArea opts of None \<Rightarrow> 150 | Some a \<Rightarrow> a)"

definition maxArea :: "options \<Rightarrow> real" where
  "maxArea opts = (case maxBubbleArea opts of None \<Rightarrow> 20000 | Some a \<Rightarrow> a)"

definition fillThr :: "options \<Rightarrow> real" where
  "fillThr opts = (case fillThreshold opts of None \<Rightarrow> 0.35 | Some t \<Rightarrow> t)"

text \<open>One entry of \<^verbatim>\<open>questions\<close>, and the result (lines 526 to 530).\<close>

record question =
  index :: nat
  selected :: "int option"
  scores :: "real list"

record analyzeResult =
  questions :: "question list"
  bubbles :: "bubble list"

text \<open>
  What ends a call without a result. \<open>TypeError\<close>: \<^verbatim>\<open>groups[k].push\<close> on an index
  outside \<^verbatim>\<open>groups\<close> (line 761). \<open>NotANumber\<close>: a division by the length of an empty
  group (lines 766 to 770), where JavaScript stores NaN and goes on.
\<close>

datatype failure = TypeError | NotANumber

text \<open>The OpenCV.js calls of the function, each with the source's constant arguments.\<close>

record ('m, 'c) opencv =
  cv_rows :: "'m \<Rightarrow> nat"
  cv_cols :: "'m \<Rightarrow> nat"
  cv_cvtColor :: "'m \<Rightarrow> 'm"
  cv_CLAHE :: "'m \<Rightarrow> 'm option"
  cv_GaussianBlur :: "'m \<Rightarrow> 'm"
  cv_adaptiveThreshold :: "'m \<Rightarrow> 'm"
  cv_morphologyEx :: "'m \<Rightarrow> 'm"
  cv_findContours :: "'m \<Rightarrow> 'c list"
  cv_contourArea :: "'c \<Rightarrow> real"
  cv_arcLength :: "'c \<Rightarrow> real"
  cv_minEnclosingCircle :: "'c \<Rightarrow> (real \<times> real) \<times> real"
  cv_zeros :: "nat \<Rightarrow> nat \<Rightarrow> 'm"
  cv_circle :: "'m \<Rightarrow> int \<times> int \<Rightarrow> int \<Rightarrow> 'm"
  cv_bitwise_and :: "'m \<Rightarrow> 'm \<Rightarrow> 'm \<Rightarrow> 'm"
  cv_threshold :: "'m \<Rightarrow> 'm"
  cv_countNonZero :: "'m \<Rightarrow> nat"

section \<open>Image normalisation (lines 607 to 647)\<close>

text \<open>
  The \<^verbatim>\<open>try\<close> block of lines 612 to 621: \<open>cv_CLAHE\<close> is \<open>None\<close> when the constructor is
  missing or \<^verbatim>\<open>apply\<close> throws; the \<^verbatim>\<open>catch\<close> keeps the grayscale as it is.
\<close>

definition enhance :: "('m, 'c) opencv \<Rightarrow> 'm \<Rightarrow> 'm" where
  "enhance cv gray = (case cv_CLAHE cv gray of Some claheDst \<Rightarrow> claheDst | None \<Rightarrow> gray)"

definition blurredOf :: "('m, 'c) opencv \<Rightarrow> 'm \<Rightarrow> 'm" where
  "blurredOf cv gray = cv_GaussianBlur cv gray"

definition contoursOf :: "('m, 'c) opencv \<Rightarrow> 'm \<Rightarrow> 'c list" where
  "contoursOf cv blurred =
     cv_findContours cv (cv_morphologyEx cv (cv_adaptiveThreshold cv blurred))"

section \<open>Candidate extraction (lines 649 to 697)\<close>

definition circularity :: "('m, 'c) opencv \<Rightarrow> 'c \<Rightarrow> real" where
  "circularity cv cnt =
     (let area = cv_contourArea cv cnt; perim = cv_arcLength cv cnt
      in if perim > 0 then (4 * pi * area) / (perim * perim) else 0)"

definition mkBubble :: "('m, 'c) opencv \<Rightarrow> 'c \<Rightarrow> nat \<Rightarrow> bubble" where
  "mkBubble cv cnt i =
     (case cv_minEnclosingCircle cv cnt of
        ((cx, cy), radius) \<Rightarrow>
          \<lparr>bub_x = cx, bub_y = cy, bub_r = radius, contourIndex = int i,
           filledRatio = None, isFilled = None\<rparr>)"

text \<open>The body of the first loop (lines 652 to 672), for contour \<open>i\<close>.\<close>

definition firstStep ::
  "('m, 'c) opencv \<Rightarrow> options \<Rightarrow> bubble list \<Rightarrow> nat \<times> 'c \<Rightarrow> bubble list" where
  "firstStep cv opts bs ic =
     (case ic of (i, cnt) \<Rightarrow>
        let area = cv_contourArea cv cnt
        in if area < minArea opts \<or> area > maxArea opts then bs
           else if circularity cv cnt < 0.35 then bs
           else bs @ [mkBubble cv cnt i])"

definition firstPass :: "('m, 'c) opencv \<Rightarrow> options \<Rightarrow> 'c list \<Rightarrow> bubble list" where
  "firstPass cv opts contours = foldl (firstStep cv opts) [] (enumerate 0 contours)"

definition hypot :: "real \<Rightarrow> real \<Rightarrow> real" where
  "hypot dx dy = sqrt (dx * dx + dy * dy)"

text \<open>The test of \<^verbatim>\<open>bubbles.find\<close> at line 693.\<close>

definition nearby :: "real \<Rightarrow> real \<Rightarrow> real \<Rightarrow> bubble \<Rightarrow> bool" where
  "nearby cx cy radius b \<longleftrightarrow> hypot (bub_x b - cx) (bub_y b - cy) < max 5 (radius * 0.6)"

text \<open>The body of the relaxed loop (lines 676 to 696).\<close>

definition relaxedStep ::
  "('m, 'c) opencv \<Rightarrow> options \<Rightarrow> bubble list \<Rightarrow> nat \<times> 'c \<Rightarrow> bubble list" where
  "relaxedStep cv opts bs ic =
     (case ic of (i, cnt) \<Rightarrow>
        let area = cv_contourArea cv cnt
        in if area < minArea opts * 0.6 \<or> area > maxArea opts * 2 then bs
           else if circularity cv cnt < 0.28 then bs
           else (case cv_minEnclosingCircle cv cnt of
                   ((cx, cy), radius) \<Rightarrow>
                     (case find (nearby cx cy radius) bs of
                        None \<Rightarrow> bs @ [mkBubble cv cnt i]
                      | Some b \<Rightarrow> bs)))"

definition relaxedPass ::
  "('m, 'c) opencv \<Rightarrow> options \<Rightarrow> 'c list \<Rightarrow> bubble list \<Rightarrow> bubble list" where
  "relaxedPass cv opts contours bs = foldl (relaxedStep cv opts) bs (enumerate 0 contours)"

definition extractBubbles :: "('m, 'c) opencv \<Rightarrow> options \<Rightarrow> 'c list \<Rightarrow> bubble list" where
  "extractBubbles cv opts contours =
     (let bs = firstPass cv opts contours
      in if length bs < 10 then relaxedPass cv opts contours bs else bs)"

section \<open>Fill classification (lines 702 to 731)\<close>

text \<open>\<^verbatim>\<open>totalMask\<close> and \<^verbatim>\<open>whiteInside\<close> of one bubble (lines 706 to 719).\<close>

definition maskCounts :: "('m, 'c) opencv \<Rightarrow> 'm \<Rightarrow> 'm \<Rightarrow> bubble \<Rightarrow> nat \<times> nat" where
  "maskCounts cv src blurred b =
     (let mask = cv_circle cv (cv_zeros cv (cv_rows cv src) (cv_cols cv src))
                   (round (bub_x b), round (bub_y b)) (max 1 (round (bub_r b * 0.8)));
          masked = cv_bitwise_and cv blurred blurred mask;
          tmp = cv_threshold cv masked
      in (cv_countNonZero cv mask, cv_countNonZero cv tmp))"

definition fillOf :: "nat \<times> nat \<Rightarrow> real" where
  "fillOf tw =
     (case tw of (totalMask, whiteInside) \<Rightarrow>
        let darkInside = int totalMask - int whiteInside
        in if totalMask > 0 then real_of_int darkInside / real totalMask else 0)"

definition classifyOne :: "('m, 'c) opencv \<Rightarrow> options \<Rightarrow> 'm \<Rightarrow> 'm \<Rightarrow> bubble \<Rightarrow> bubble" where
  "classifyOne cv opts src blurred b =
     (let ratio = fillOf (maskCounts cv src blurred b)
      in b\<lparr>filledRatio := Some ratio, isFilled := Some (ratio \<ge> fillThr opts)\<rparr>)"

definition classify ::
  "('m, 'c) opencv \<Rightarrow> options \<Rightarrow> 'm \<Rightarrow> 'm \<Rightarrow> bubble list \<Rightarrow> bubble list" where
  "classify cv opts src blurred bs = map (classifyOne cv opts src blurred) bs"

section \<open>Sorting\<close>

text \<open>
  \<^verbatim>\<open>Array.prototype.sort\<close> with a comparator: stable, and for a comparator that is a
  total preorder the result is the stable sorted permutation, which insertion from the
  right computes.
\<close>

fun insert_by :: "('a \<Rightarrow> 'a \<Rightarrow> real) \<Rightarrow> 'a \<Rightarrow> 'a list \<Rightarrow> 'a list" where
  "insert_by cmp a [] = [a]"
| "insert_by cmp a (b # bs) = (if cmp a b \<le> 0 then a # b # bs else b # insert_by cmp a bs)"

definition sort_by :: "('a \<Rightarrow> 'a \<Rightarrow> real) \<Rightarrow> 'a list \<Rightarrow> 'a list" where
  "sort_by cmp xs = foldr (insert_by cmp) xs []"

text \<open>Line 735: \<^verbatim>\<open>a.y - b.y || a.x - b.x\<close>. Line 753: \<^verbatim>\<open>a.x - b.x\<close>.\<close>

definition cmpYX :: "bubble \<Rightarrow> bubble \<Rightarrow> real" where
  "cmpYX a b = (if bub_y a - bub_y b \<noteq> 0 then bub_y a - bub_y b else bub_x a - bub_x b)"

definition cmpX :: "bubble \<Rightarrow> bubble \<Rightarrow> real" where
  "cmpX a b = bub_x a - bub_x b"

section \<open>Row clustering (lines 737 to 748)\<close>

definition rowTolerance :: "nat \<Rightarrow> real" where
  "rowTolerance srcRows = max 8 (real_of_int (round (real srcRows / 200)))"

definition avgY :: "bubble list \<Rightarrow> real" where
  "avgY lastRow = foldl (\<lambda>s b. s + bub_y b) 0 lastRow / real (length lastRow)"

definition clusterStep :: "real \<Rightarrow> bubble list list \<Rightarrow> bubble \<Rightarrow> bubble list list" where
  "clusterStep tol rws bub =
     (if length rws = 0 then [[bub]]
      else let lastRow = last rws
           in if \<bar>bub_y bub - avgY lastRow\<bar> \<le> tol then butlast rws @ [lastRow @ [bub]]
              else rws @ [[bub]])"

definition cluster :: "real \<Rightarrow> bubble list \<Rightarrow> bubble list list" where
  "cluster tol filledBubbles = foldl (clusterStep tol) [] filledBubbles"

section \<open>Answer selection (lines 751 to 787)\<close>

definition ratioOf :: "bubble \<Rightarrow> real" where
  "ratioOf b = (case filledRatio b of None \<Rightarrow> 0 | Some v \<Rightarrow> v)"

text \<open>\<^verbatim>\<open>Math.floor((i * expectedOptions) / row.length)\<close>, line 761.\<close>

definition groupIndex :: "nat \<Rightarrow> int \<Rightarrow> nat \<Rightarrow> int" where
  "groupIndex i E n = (int i * E) div int n"

text \<open>
  The loop of lines 760 to 762 from index \<open>i\<close> on; \<open>n\<close> is \<^verbatim>\<open>row.length\<close>. An index
  outside \<^verbatim>\<open>groups\<close> reads \<^verbatim>\<open>undefined\<close>, and \<^verbatim>\<open>push\<close> on it throws.
\<close>

fun groupLoop ::
  "int \<Rightarrow> nat \<Rightarrow> bubble list \<Rightarrow> nat \<Rightarrow> bubble list list \<Rightarrow> failure + bubble list list" where
  "groupLoop E n [] i groups = Inr groups"
| "groupLoop E n (b # bs) i groups =
     (let k = groupIndex i E n
      in if 0 \<le> k \<and> nat k < length groups
         then groupLoop E n bs (Suc i) (groups[nat k := groups ! nat k @ [b]])
         else Inl TypeError)"

text \<open>\<^verbatim>\<open>Array.from({ length: expectedOptions }, () => [])\<close>: a negative length gives none.\<close>

definition makeGroups :: "int \<Rightarrow> bubble list \<Rightarrow> failure + bubble list list" where
  "makeGroups E row = groupLoop E (length row) row 0 (replicate (nat E) [])"

text \<open>The \<^verbatim>\<open>reduce\<close> of line 764: the sums of \<^verbatim>\<open>x\<close>, \<^verbatim>\<open>y\<close>, \<^verbatim>\<open>r\<close>, \<^verbatim>\<open>filledRatio\<close>.\<close>

definition sumGroup :: "bubble list \<Rightarrow> real \<times> real \<times> real \<times> real" where
  "sumGroup g =
     foldl (\<lambda>acc cur. case acc of (ax, ay, ar, af) \<Rightarrow>
              (ax + bub_x cur, ay + bub_y cur, ar + bub_r cur, af + ratioOf cur))
       (0, 0, 0, 0) g"

definition averageGroup :: "real \<Rightarrow> bubble list \<Rightarrow> failure + bubble" where
  "averageGroup thr g =
     (case sumGroup g of (ax, ay, ar, af) \<Rightarrow>
        if length g = 0 then Inl NotANumber
        else Inr \<lparr>bub_x = ax / real (length g), bub_y = ay / real (length g),
                  bub_r = ar / real (length g), contourIndex = - 1,
                  filledRatio = Some (af / real (length g)),
                  isFilled = Some (af / real (length g) \<ge> thr)\<rparr>)"

fun collect :: "('e + 'a) list \<Rightarrow> 'e + 'a list" where
  "collect [] = Inr []"
| "collect (Inl e # rest) = Inl e"
| "collect (Inr v # rest) = (case collect rest of Inl e \<Rightarrow> Inl e | Inr vs \<Rightarrow> Inr (v # vs))"

definition mergeRow :: "real \<Rightarrow> int \<Rightarrow> bubble list \<Rightarrow> failure + bubble list" where
  "mergeRow thr E row =
     (case makeGroups E row of
        Inl e \<Rightarrow> Inl e
      | Inr groups \<Rightarrow> collect (map (averageGroup thr) groups))"

text \<open>
  Lines 755 to 773. \<^verbatim>\<open>options.expectedOptions && ...\<close>: \<^verbatim>\<open>undefined\<close> and \<open>0\<close> are
  falsy.
\<close>

definition optionsInRow :: "options \<Rightarrow> bubble list \<Rightarrow> failure + bubble list" where
  "optionsInRow opts row =
     (case expectedOptions opts of
        None \<Rightarrow> Inr row
      | Some E \<Rightarrow>
          if E \<noteq> 0 \<and> int (length row) > E then mergeRow (fillThr opts) E row else Inr row)"

text \<open>The loop of lines 779 to 784 from index \<open>i\<close> on, on \<^verbatim>\<open>(maxIdx, maxScore)\<close>.\<close>

fun argmaxLoop :: "real list \<Rightarrow> nat \<Rightarrow> int \<times> real \<Rightarrow> int \<times> real" where
  "argmaxLoop [] i best = best"
| "argmaxLoop (s # ss) i (maxIdx, maxScore) =
     (if s > maxScore then argmaxLoop ss (Suc i) (int i, s)
      else argmaxLoop ss (Suc i) (maxIdx, maxScore))"

definition selectScores :: "real \<Rightarrow> real list \<Rightarrow> int option" where
  "selectScores thr scs =
     (case argmaxLoop scs 0 (- 1, - 1) of
        (maxIdx, maxScore) \<Rightarrow> if maxScore \<ge> thr then Some maxIdx else None)"

definition selectRow :: "options \<Rightarrow> nat \<Rightarrow> bubble list \<Rightarrow> failure + question" where
  "selectRow opts qi unsorted =
     (let row = sort_by cmpX unsorted
      in case optionsInRow opts row of
           Inl e \<Rightarrow> Inl e
         | Inr inRow \<Rightarrow>
             let scs = map ratioOf inRow
             in Inr \<lparr>index = qi + 1, selected = selectScores (fillThr opts) scs,
                     scores = scs\<rparr>)"

text \<open>The loop over \<^verbatim>\<open>rows\<close> (line 752) from row \<open>qi\<close> on; a throw ends the call.\<close>

fun selectLoop :: "options \<Rightarrow> nat \<Rightarrow> bubble list list \<Rightarrow> failure + question list" where
  "selectLoop opts qi [] = Inr []"
| "selectLoop opts qi (row # rest) =
     (case selectRow opts qi row of
        Inl e \<Rightarrow> Inl e
      | Inr q \<Rightarrow> (case selectLoop opts (Suc qi) rest of
                    Inl e \<Rightarrow> Inl e
                  | Inr qs \<Rightarrow> Inr (q # qs)))"

definition selectAll :: "options \<Rightarrow> bubble list list \<Rightarrow> failure + question list" where
  "selectAll opts rws = selectLoop opts 0 rws"

section \<open>The whole call\<close>

text \<open>The call from the grayscale that the smoothing receives (lines 623 to 803).\<close>

definition candidates :: "('m, 'c) opencv \<Rightarrow> options \<Rightarrow> 'm \<Rightarrow> bubble list" where
  "candidates cv opts gray = extractBubbles cv opts (contoursOf cv (blurredOf cv gray))"

definition filledBubblesOf :: "('m, 'c) opencv \<Rightarrow> options \<Rightarrow> 'm \<Rightarrow> 'm \<Rightarrow> bubble list" where
  "filledBubblesOf cv opts src gray =
     sort_by cmpYX (classify cv opts src (blurredOf cv gray) (candidates cv opts gray))"

definition rowsOf :: "('m, 'c) opencv \<Rightarrow> options \<Rightarrow> 'm \<Rightarrow> 'm \<Rightarrow> bubble list list" where
  "rowsOf cv opts src gray =
     cluster (rowTolerance (cv_rows cv src)) (filledBubblesOf cv opts src gray)"

definition analyzeFrom ::
  "('m, 'c) opencv \<Rightarrow> options \<Rightarrow> 'm \<Rightarrow> 'm \<Rightarrow> failure + analyzeResult" where
  "analyzeFrom cv opts src gray =
     (case selectAll opts (rowsOf cv opts src gray) of
        Inl e \<Rightarrow> Inl e
      | Inr qs \<Rightarrow> Inr \<lparr>questions = qs, bubbles = filledBubblesOf cv opts src gray\<rparr>)"

definition analyzeOmrImage :: "('m, 'c) opencv \<Rightarrow> options \<Rightarrow> 'm \<Rightarrow> failure + analyzeResult" where
  "analyzeOmrImage cv opts src = analyzeFrom cv opts src (enhance cv (cv_cvtColor cv src))"

section \<open>The call as a sequence of stages\<close>

text \<open>
  The function is straight-line code with two branches, the \<^verbatim>\<open>try\<close> of line 612 and
  the \<^verbatim>\<open>if\<close> of line 675, and no loop around its stages. A configuration records
  the variables that are live between two blocks; a step runs one block.
\<close>

datatype ('m, 'c) config =
    Loaded 'm
  | Normalized 'm 'm "'c list"
  | FirstDone 'm 'm "'c list" "bubble list"
  | Extracted 'm 'm "bubble list"
  | Classified 'm "bubble list"
  | Clustered "bubble list" "bubble list list"
  | Returned analyzeResult
  | Thrown failure

datatype block =
    Normalize | NormalizeNoClahe | FirstScan | RelaxedScan | NoRelaxedScan
  | Classify | Cluster | Select

inductive step ::
  "('m, 'c) opencv \<Rightarrow> options \<Rightarrow> ('m, 'c) config \<Rightarrow> block \<Rightarrow> ('m, 'c) config \<Rightarrow> bool"
  for cv :: "('m, 'c) opencv" and opts :: options where
  normalize:
    "cv_CLAHE cv (cv_cvtColor cv src) = Some claheDst \<Longrightarrow>
     step cv opts (Loaded src) Normalize
       (Normalized src (blurredOf cv claheDst) (contoursOf cv (blurredOf cv claheDst)))"
| normalize_no_clahe:
    "cv_CLAHE cv (cv_cvtColor cv src) = None \<Longrightarrow>
     step cv opts (Loaded src) NormalizeNoClahe
       (Normalized src (blurredOf cv (cv_cvtColor cv src))
          (contoursOf cv (blurredOf cv (cv_cvtColor cv src))))"
| first_scan:
    "step cv opts (Normalized src blurred contours) FirstScan
       (FirstDone src blurred contours (firstPass cv opts contours))"
| relaxed_scan:
    "length bs < 10 \<Longrightarrow>
     step cv opts (FirstDone src blurred contours bs) RelaxedScan
       (Extracted src blurred (relaxedPass cv opts contours bs))"
| no_relaxed_scan:
    "\<not> length bs < 10 \<Longrightarrow>
     step cv opts (FirstDone src blurred contours bs) NoRelaxedScan
       (Extracted src blurred bs)"
| classify:
    "step cv opts (Extracted src blurred bs) Classify
       (Classified src (sort_by cmpYX (classify cv opts src blurred bs)))"
| cluster:
    "step cv opts (Classified src filledBubbles) Cluster
       (Clustered filledBubbles (cluster (rowTolerance (cv_rows cv src)) filledBubbles))"
| select_returns:
    "selectAll opts rws = Inr qs \<Longrightarrow>
     step cv opts (Clustered filledBubbles rws) Select
       (Returned \<lparr>questions = qs, bubbles = filledBubbles\<rparr>)"
| select_throws:
    "selectAll opts rws = Inl e \<Longrightarrow>
     step cv opts (Clustered filledBubbles rws) Select (Thrown e)"

text \<open>A run: the blocks executed, in order, between two configurations.\<close>

inductive run ::
  "('m, 'c) opencv \<Rightarrow> options \<Rightarrow> ('m, 'c) config \<Rightarrow> block list \<Rightarrow> ('m, 'c) config \<Rightarrow> bool"
  for cv :: "('m, 'c) opencv" and opts :: options where
  run_done: "run cv opts c [] c"
| run_step: "step cv opts c b c' \<Longrightarrow> run cv opts c' bs c'' \<Longrightarrow> run cv opts c (b # bs) c''"

fun final :: "('m, 'c) config \<Rightarrow> bool" where
  "final (Returned res) = True"
| "final (Thrown e) = True"
| "final c = False"

fun outcome :: "failure + analyzeResult \<Rightarrow> ('m, 'c) config" where
  "outcome (Inr res) = Returned res"
| "outcome (Inl e) = Thrown e"

fun stageNo :: "('m, 'c) config \<Rightarrow> nat" where
  "stageNo (Loaded src) = 0"
| "stageNo (Normalized src blurred contours) = 1"
| "stageNo (FirstDone src blurred contours bs) = 2"
| "stageNo (Extracted src blurred bs) = 3"
| "stageNo (Classified src fbs) = 4"
| "stageNo (Clustered fbs rws) = 5"
| "stageNo (Returned res) = 6"
| "stageNo (Thrown e) = 6"

text \<open>The blocks that a call runs, in order.\<close>

definition blocksOf :: "('m, 'c) opencv \<Rightarrow> options \<Rightarrow> 'm \<Rightarrow> block list" where
  "blocksOf cv opts src =
     [if cv_CLAHE cv (cv_cvtColor cv src) = None then NormalizeNoClahe else Normalize,
      FirstScan,
      if length (firstPass cv opts
                  (contoursOf cv (blurredOf cv (enhance cv (cv_cvtColor cv src))))) < 10
      then RelaxedScan else NoRelaxedScan,
      Classify, Cluster, Select]"

section \<open>Notions used in the statements\<close>

text \<open>
  The members of group \<open>g\<close> when bubble \<open>i\<close> of an \<open>n\<close>-bubble row goes to group
  \<open>\<lfloor>i * E / n\<rfloor>\<close>, in row order.
\<close>

definition groupMembers :: "int \<Rightarrow> bubble list \<Rightarrow> nat \<Rightarrow> bubble list" where
  "groupMembers E row g =
     map snd (filter (\<lambda>ib. groupIndex (fst ib) E (length row) = int g) (enumerate 0 row))"

definition mean :: "real list \<Rightarrow> real" where
  "mean vs = sum_list vs / real (length vs)"

text \<open>
  What the model asks of the toolkit: thresholding an image that was cut out by a mask
  leaves no more non-zero pixels than the mask has, since \<^verbatim>\<open>bitwise_and\<close> writes zero
  outside the mask and no threshold level is negative.
\<close>

definition maskContract :: "('m, 'c) opencv \<Rightarrow> bool" where
  "maskContract cv \<longleftrightarrow>
     (\<forall>blurred mask.
        cv_countNonZero cv (cv_threshold cv (cv_bitwise_and cv blurred blurred mask))
          \<le> cv_countNonZero cv mask)"

text \<open>The answer that the selection rule prescribes for a list of scores.\<close>

definition isAnswerFor :: "real \<Rightarrow> real list \<Rightarrow> int option \<Rightarrow> bool" where
  "isAnswerFor thr scs sel \<longleftrightarrow>
     (case sel of
        None \<Rightarrow> (\<forall>j<length scs. scs ! j < thr)
      | Some i \<Rightarrow>
          0 \<le> i \<and> nat i < length scs \<and> thr \<le> scs ! nat i
          \<and> (\<forall>j<length scs. scs ! j \<le> scs ! nat i)
          \<and> (\<forall>j<nat i. scs ! j < scs ! nat i))"

text \<open>The bubble that lines 763 to 772 make of a non-empty group.\<close>

definition meanBubble :: "real \<Rightarrow> bubble list \<Rightarrow> bubble" where
  "meanBubble thr g =
     \<lparr>bub_x = mean (map bub_x g), bub_y = mean (map bub_y g), bub_r = mean (map bub_r g),
      contourIndex = - 1, filledRatio = Some (mean (map ratioOf g)),
      isFilled = Some (mean (map ratioOf g) \<ge> thr)\<rparr>"

text \<open>
  A count that the source's grouping can serve: absent, or not negative. The raw row,
  or the row merged to \<open>E\<close> bubbles when \<open>0 < E < n\<close> (lines 755 to 773).
\<close>

definition validCount :: "options \<Rightarrow> bool" where
  "validCount opts \<longleftrightarrow> (case expectedOptions opts of None \<Rightarrow> True | Some E \<Rightarrow> 0 \<le> E)"

definition mergedOrRaw :: "options \<Rightarrow> bubble list \<Rightarrow> bubble list" where
  "mergedOrRaw opts row =
     (case expectedOptions opts of
        None \<Rightarrow> row
      | Some E \<Rightarrow>
          if 0 < E \<and> E < int (length row)
          then map (meanBubble (fillThr opts)) (map (groupMembers E row) [0..<nat E])
          else row)"

text \<open>
  What the relaxed loop requires of a bubble that it adds when \<open>accepted\<close> is the list
  of bubbles so far: it is the enclosing circle of a contour whose area is within
  \<open>[0.6 * minArea, 2 * maxArea]\<close> and whose circularity is at least 0.28, and no accepted
  centre is closer to its centre than \<open>max 5 (0.6 * radius)\<close>.
\<close>

definition relaxedAccepts ::
  "('m, 'c) opencv \<Rightarrow> options \<Rightarrow> 'c list \<Rightarrow> bubble list \<Rightarrow> bubble \<Rightarrow> bool" where
  "relaxedAccepts cv opts contours accepted b \<longleftrightarrow>
     (\<exists>i<length contours.
        b = mkBubble cv (contours ! i) i
        \<and> minArea opts * 0.6 \<le> cv_contourArea cv (contours ! i)
        \<and> cv_contourArea cv (contours ! i) \<le> maxArea opts * 2
        \<and> 0.28 \<le> circularity cv (contours ! i)
        \<and> (\<forall>a\<in>set accepted.
              max 5 (bub_r b * 0.6) \<le> hypot (bub_x a - bub_x b) (bub_y a - bub_y b)))"

section \<open>A synthetic sheet\<close>

text \<open>
  A toolkit over symbolic images, for evaluating the definitions: two rows of
  bubbles at \<open>y = 100\<close> and \<open>y = 200\<close> on a sheet of height 2000. A contour is its area,
  its perimeter, the centre of its enclosing circle and the radius.
\<close>

datatype sheet =
    Photo | Gray | Blurred | Binary | Closed | Blank
  | Disc int int int | Inside int int int | Light int int int

type_synonym outline = "real \<times> real \<times> (real \<times> real) \<times> real"

definition sheetContours :: "outline list" where
  "sheetContours =
     [(300, 62, (100, 100), 10), (300, 62, (200, 100), 10), (300, 62, (300, 100), 10),
      (10, 12, (350, 150), 2),
      (100, 36, (400, 100), 6), (100, 36, (102, 100), 6),
      (300, 62, (100, 200), 10), (300, 62, (200, 200), 10), (300, 62, (300, 200), 10)]"

definition whitePixels :: "int \<Rightarrow> int \<Rightarrow> nat" where
  "whitePixels cx cy = (if (cx = 200 \<and> cy = 100) \<or> (cx = 300 \<and> cy = 200) then 10 else 90)"

definition sheetCv :: "(sheet, outline) opencv" where
  "sheetCv =
     \<lparr>cv_rows = (\<lambda>m. 2000), cv_cols = (\<lambda>m. 1500),
      cv_cvtColor = (\<lambda>m. Gray), cv_CLAHE = (\<lambda>m. None),
      cv_GaussianBlur = (\<lambda>m. Blurred), cv_adaptiveThreshold = (\<lambda>m. Binary),
      cv_morphologyEx = (\<lambda>m. Closed),
      cv_findContours = (\<lambda>m. sheetContours),
      cv_contourArea = (\<lambda>c. fst c), cv_arcLength = (\<lambda>c. fst (snd c)),
      cv_minEnclosingCircle = (\<lambda>c. snd (snd c)),
      cv_zeros = (\<lambda>h w. Blank),
      cv_circle = (\<lambda>m p rad. Disc (fst p) (snd p) rad),
      cv_bitwise_and =
        (\<lambda>a b mask. case mask of Disc cx cy rad \<Rightarrow> Inside cx cy rad | _ \<Rightarrow> Blank),
      cv_threshold = (\<lambda>m. case m of Inside cx cy rad \<Rightarrow> Light cx cy rad | _ \<Rightarrow> Blank),
      cv_countNonZero =
        (\<lambda>m. case m of Disc cx cy rad \<Rightarrow> 100 | Light cx cy rad \<Rightarrow> whitePixels cx cy
              | _ \<Rightarrow> 0)\<rparr>"

definition noOptions :: options where
  "noOptions =
     \<lparr>minBubbleArea = None, maxBubbleArea = None, fillThreshold = None,
      expectedOptions = None, expectedQuestions = None, debug = None\<rparr>"

definition bubbleAt :: "real \<Rightarrow> real \<Rightarrow> real \<Rightarrow> bubble" where
  "bubbleAt px py ratio =
     \<lparr>bub_x = px, bub_y = py, bub_r = 10, contourIndex = 0,
      filledRatio = Some ratio, isFilled = Some (ratio \<ge> 0.35)\<rparr>"

text \<open>A row of five detections, the first bubble seen twice.\<close>

definition rowOfFive :: "bubble list" where
  "rowOfFive =
     [bubbleAt 100 100 0.1, bubbleAt 104 100 0.3, bubbleAt 200 100 0.9,
      bubbleAt 300 100 0.1, bubbleAt 400 100 0.1]"

text \<open>
  What the stages make of the sheet with the default areas and threshold: the
  candidates in the order of acceptance, the classified bubbles sorted by \<open>(y, x)\<close>,
  and the two rows.
\<close>

definition detectedAt :: "int \<Rightarrow> real \<Rightarrow> real \<Rightarrow> real \<Rightarrow> bubble" where
  "detectedAt i px py rad =
     \<lparr>bub_x = px, bub_y = py, bub_r = rad, contourIndex = i,
      filledRatio = None, isFilled = None\<rparr>"

definition classifiedAt :: "int \<Rightarrow> real \<Rightarrow> real \<Rightarrow> real \<Rightarrow> real \<Rightarrow> bool \<Rightarrow> bubble" where
  "classifiedAt i px py rad ratio filled =
     \<lparr>bub_x = px, bub_y = py, bub_r = rad, contourIndex = i,
      filledRatio = Some ratio, isFilled = Some filled\<rparr>"

definition sheetCandidates :: "bubble list" where
  "sheetCandidates =
     [detectedAt 0 100 100 10, detectedAt 1 200 100 10, detectedAt 2 300 100 10,
      detectedAt 6 100 200 10, detectedAt 7 200 200 10, detectedAt 8 300 200 10,
      detectedAt 4 400 100 6]"

definition sheetBubbles :: "bubble list" where
  "sheetBubbles =
     [classifiedAt 0 100 100 10 0.1 False, classifiedAt 1 200 100 10 0.9 True,
      classifiedAt 2 300 100 10 0.1 False, classifiedAt 4 400 100 6 0.1 False,
      classifiedAt 6 100 200 10 0.1 False, classifiedAt 7 200 200 10 0.1 False,
      classifiedAt 8 300 200 10 0.9 True]"

definition sheetRows :: "bubble list list" where
  "sheetRows = [take 4 sheetBubbles, drop 4 sheetBubbles]"

definition withExpected :: "int \<Rightarrow> options" where
  "withExpected E = noOptions\<lparr>expectedOptions := Some E\<rparr>"

text \<open>A sheet on which the only contour is a speck that both passes reject.\<close>

definition blankCv :: "(sheet, outline) opencv" where
  "blankCv = sheetCv\<lparr>cv_findContours := (\<lambda>m. [(10, 12, (350, 150), 2)])\<rparr>"

text \<open>
  Two contours whose centres are exactly five pixels apart; the first pass accepts the
  first only, for its area.
\<close>

definition touchingCv :: "(sheet, outline) opencv" where
  "touchingCv = sheetCv\<lparr>cv_findContours := (\<lambda>m. [(300, 62, (0, 0), 10), (100, 36, (5, 0), 5)])\<rparr>"

chapter \<open>Properties\<close>

section \<open>Row clustering\<close>

lemma rowTolerance_2000: "rowTolerance 2000 = 10"
  by (simp add: rowTolerance_def round_def)

text \<open>
  Claim C2, as the source has it. On a sheet of height 2000 the tolerance is 10. Bubbles
  at \<open>y = 100\<close> and \<open>y = 109\<close> share a row, whose mean is then 104.5; the next bubble
  joins that row when its \<open>y\<close> is within 10 of 104.5, which \<open>y = 111\<close> is, and starts a
  new row otherwise.
\<close>

theorem cluster_scenario_running_mean:
  "bub_y a = 100 \<Longrightarrow> bub_y b = 109 \<Longrightarrow>
     rowTolerance 2000 = 10 \<and> avgY [a, b] = 104.5 \<and>
     cluster (rowTolerance 2000) [a, b, c] =
       (if \<bar>bub_y c - 104.5\<bar> \<le> 10 then [[a, b, c]] else [[a, b], [c]])"
  by (simp add: rowTolerance_2000 cluster_def clusterStep_def avgY_def)

theorem cluster_scenario_running_mean_witness:
  "bub_y (bubbleAt 10 100 0) = 100 \<and> bub_y (bubbleAt 30 109 0) = 109 \<and>
   cluster (rowTolerance 2000) [bubbleAt 10 100 0, bubbleAt 30 109 0, bubbleAt 50 115 0] =
     [[bubbleAt 10 100 0, bubbleAt 30 109 0], [bubbleAt 50 115 0]]"
  using cluster_scenario_running_mean
    [of "bubbleAt 10 100 0" "bubbleAt 30 109 0" "bubbleAt 50 115 0"]
  by (simp add: bubbleAt_def rowTolerance_2000)

text \<open>
  The scenario of claim C2 as the claim states it: the bubble at \<open>y = 111\<close> does not start
  a new row, it is the third member of the row of the bubbles at 100 and 109.
\<close>

theorem cluster_scenario_111_joins:
  "cluster (rowTolerance 2000)
      (sort_by cmpYX [bubbleAt 50 111 0, bubbleAt 10 100 0, bubbleAt 30 109 0]) =
     [[bubbleAt 10 100 0, bubbleAt 30 109 0, bubbleAt 50 111 0]]
   \<and> cluster (rowTolerance 2000)
      (sort_by cmpYX [bubbleAt 50 111 0, bubbleAt 10 100 0, bubbleAt 30 109 0]) \<noteq>
     [[bubbleAt 10 100 0, bubbleAt 30 109 0], [bubbleAt 50 111 0]]"
  by (simp add: rowTolerance_2000 cluster_def clusterStep_def avgY_def sort_by_def cmpYX_def
      bubbleAt_def)

section \<open>The positional partition of a row\<close>

subsection \<open>Arithmetic of the group index\<close>

lemma groupIndex_nat: "groupIndex i (int e) n = int ((i * e) div n)"
  by (simp add: groupIndex_def zdiv_int)

lemma nat_group_less: "0 < e \<Longrightarrow> i < n \<Longrightarrow> (i * e) div n < (e::nat)"
  by (simp add: div_less_iff_less_mult)

lemma nat_group_surj:
  assumes "0 < e" "e \<le> n" "g < (e::nat)"
  shows "\<exists>i<n. (i * e) div n = g"
proof -
  define i where "i = (g * n + (e - 1)) div e"
  have n0: "0 < n" using assms by simp
  have up: "i * e \<le> g * n + (e - 1)"
    unfolding i_def by simp
  have "g * n + (e - 1) < (i + 1) * e"
    unfolding i_def using assms(1) dividend_less_div_times[of e "g * n + (e - 1)"] by (simp add: algebra_simps)
  then have lo: "g * n \<le> i * e" using assms(1) by (simp add: algebra_simps)
  have "Suc g \<le> e" using assms by simp
  then have "Suc g * n \<le> e * n" by (rule mult_le_mono1)
  then have "g * n + (e - 1) < e * n" using assms by simp
  then have c: "i < n" unfolding i_def using assms(1) by (simp add: div_less_iff_less_mult mult.commute)
  have "i * e < Suc g * n" using up assms by simp
  then have "(i * e) div n < Suc g" using n0 by (simp add: div_less_iff_less_mult)
  moreover have "g \<le> (i * e) div n" using lo n0 by (simp add: less_eq_div_iff_mult_less_eq)
  ultimately have "(i * e) div n = g" by simp
  with c show ?thesis by blast
qed

lemma groupIndex_range:
  assumes "0 < E" "i < n"
  shows "0 \<le> groupIndex i E n \<and> nat (groupIndex i E n) < nat E"
proof -
  obtain e where e: "E = int e" "0 < e" using zero_less_imp_eq_int[OF assms(1)] by blast
  show ?thesis using nat_group_less[OF e(2) assms(2)] by (simp add: e groupIndex_nat)
qed

lemma groupIndex_mono: "0 \<le> E \<Longrightarrow> i \<le> j \<Longrightarrow> groupIndex i E n \<le> groupIndex j E n"
proof -
  assume a: "0 \<le> E" "i \<le> j"
  then obtain e where e: "E = int e" using nonneg_int_cases by blast
  show ?thesis using a(2) by (simp add: e groupIndex_nat div_le_mono)
qed

lemma groupIndex_surj:
  assumes "0 < E" "E \<le> int n" "g < nat E"
  shows "\<exists>i<n. groupIndex i E n = int g"
proof -
  obtain e where e: "E = int e" "0 < e" using zero_less_imp_eq_int[OF assms(1)] by blast
  have "\<exists>i<n. (i * e) div n = g" using assms e by (intro nat_group_surj) simp_all
  then show ?thesis by (auto simp: e groupIndex_nat)
qed

subsection \<open>The grouping loop\<close>

lemma groupLoop_char:
  assumes "\<forall>j. i \<le> j \<and> j < i + length bs \<longrightarrow> 0 \<le> groupIndex j E n \<and> nat (groupIndex j E n) < length groups"
  shows "groupLoop E n bs i groups =
     Inr (map (\<lambda>g. groups ! g @ map snd (filter (\<lambda>ib. groupIndex (fst ib) E n = int g) (enumerate i bs)))
            [0..<length groups])"
  using assms
proof (induction bs arbitrary: i groups)
  case Nil
  then show ?case by (simp add: map_nth)
next
  case (Cons b bs)
  let ?k = "groupIndex i E n"
  have k: "0 \<le> ?k" "nat ?k < length groups" using Cons.prems by auto
  let ?groups' = "groups[nat ?k := groups ! nat ?k @ [b]]"
  have "\<forall>j. Suc i \<le> j \<and> j < Suc i + length bs \<longrightarrow> 0 \<le> groupIndex j E n \<and> nat (groupIndex j E n) < length ?groups'"
    using Cons.prems by auto
  from Cons.IH[OF this] have "groupLoop E n (b # bs) i groups =
     Inr (map (\<lambda>g. ?groups' ! g @ map snd (filter (\<lambda>ib. groupIndex (fst ib) E n = int g) (enumerate (Suc i) bs)))
            [0..<length groups])" using k by (simp add: Let_def)
  moreover have "map (\<lambda>g. ?groups' ! g @ map snd (filter (\<lambda>ib. groupIndex (fst ib) E n = int g) (enumerate (Suc i) bs)))
            [0..<length groups] = map (\<lambda>g. groups ! g @ map snd (filter (\<lambda>ib. groupIndex (fst ib) E n = int g) (enumerate i (b # bs))))
            [0..<length groups]"
    using k by (auto simp: nth_list_update)
  ultimately show ?case by simp
qed

lemma makeGroups_char:
  assumes "0 < E" "E \<le> int (length row)"
  shows "makeGroups E row = Inr (map (groupMembers E row) [0..<nat E])"
proof -
  have "\<forall>j. 0 \<le> j \<and> j < 0 + length row \<longrightarrow>
      0 \<le> groupIndex j E (length row) \<and> nat (groupIndex j E (length row)) < length (replicate (nat E) ([]::bubble list))"
    using groupIndex_range[OF assms(1)] by simp
  from groupLoop_char[OF this] show ?thesis
    by (simp add: makeGroups_def groupMembers_def cong: map_cong)
qed

lemma groupMembers_nonempty:
  assumes "0 < E" "E \<le> int (length row)" "g < nat E"
  shows "groupMembers E row g \<noteq> []"
proof -
  obtain i where i: "i < length row" "groupIndex i E (length row) = int g"
    using groupIndex_surj[OF assms] by blast
  have "(i, row ! i) \<in> set (enumerate 0 row)" using i(1) by (simp add: in_set_enumerate_eq)
  then have "(i, row ! i) \<in> set (filter (\<lambda>ib. groupIndex (fst ib) E (length row) = int g) (enumerate 0 row))"
    using i(2) by simp
  then have "filter (\<lambda>ib. groupIndex (fst ib) E (length row) = int g) (enumerate 0 row) \<noteq> []"
    by fastforce
  then show ?thesis unfolding groupMembers_def by simp
qed

lemma sorted_filter_split:
  fixes f :: "'a \<Rightarrow> nat"
  shows "sorted (map f xs) \<Longrightarrow> filter (\<lambda>x. f x < G) xs @ filter (\<lambda>x. \<not> f x < G) xs = xs"
proof (induction xs)
  case Nil
  then show ?case by simp
next
  case (Cons x xs)
  show ?case
  proof (cases "f x < G")
    case True
    then show ?thesis using Cons by simp
  next
    case False
    then have "\<forall>y\<in>set xs. \<not> f y < G" using Cons.prems by auto
    then have "filter (\<lambda>x. f x < G) xs = []" "filter (\<lambda>x. \<not> f x < G) xs = xs" by (simp_all add: filter_empty_conv)
    then show ?thesis using False by simp
  qed
qed

lemma concat_filter_sorted:
  fixes f :: "'a \<Rightarrow> nat"
  shows "sorted (map f xs) \<Longrightarrow> \<forall>x\<in>set xs. f x < G \<Longrightarrow>
     concat (map (\<lambda>g. filter (\<lambda>x. f x = g) xs) [0..<G]) = xs"
proof (induction G arbitrary: xs)
  case 0
  then show ?case by simp
next
  case (Suc G)
  let ?ys = "filter (\<lambda>x. f x < G) xs"
  have s: "sorted (map f ?ys)" using Suc.prems(1) by (simp add: sorted_filter)
  have "concat (map (\<lambda>g. filter (\<lambda>x. f x = g) ?ys) [0..<G]) = ?ys"
    by (rule Suc.IH[OF s]) simp
  moreover have "map (\<lambda>g. filter (\<lambda>x. f x = g) ?ys) [0..<G] = map (\<lambda>g. filter (\<lambda>x. f x = g) xs) [0..<G]"
    by (auto intro!: filter_cong)
  moreover have "filter (\<lambda>x. f x = G) xs = filter (\<lambda>x. \<not> f x < G) xs"
    using Suc.prems(2) by (auto intro!: filter_cong)
  ultimately have "concat (map (\<lambda>g. filter (\<lambda>x. f x = g) xs) [0..<Suc G])
      = ?ys @ filter (\<lambda>x. \<not> f x < G) xs"
    by (simp del: filter_filter)
  then show ?case using sorted_filter_split[OF Suc.prems(1), of G] by (simp only:)
qed

lemma concat_groupMembers:
  assumes "0 < E" "E \<le> int (length row)"
  shows "concat (map (groupMembers E row) [0..<nat E]) = row"
proof -
  let ?f = "\<lambda>ib::nat \<times> bubble. nat (groupIndex (fst ib) E (length row))"
  let ?xs = "enumerate 0 row"
  have "sorted (map fst ?xs)" by simp
  have mono: "sorted (map ?f ?xs)"
    using assms(1) by (auto simp: sorted_iff_nth_mono nth_enumerate_eq intro!: nat_mono groupIndex_mono)
  have rng: "\<forall>x\<in>set ?xs. ?f x < nat E"
    using groupIndex_range[OF assms(1)] by (auto simp: in_set_enumerate_eq)
  have eq: "\<And>g. g < nat E \<Longrightarrow> groupMembers E row g = map snd (filter (\<lambda>x. ?f x = g) ?xs)"
    unfolding groupMembers_def using groupIndex_range[OF assms(1)]
    by (auto intro!: arg_cong[where f="map snd"] filter_cong simp: in_set_enumerate_eq)
  have "concat (map (groupMembers E row) [0..<nat E]) = concat (map (\<lambda>g. map snd (filter (\<lambda>x. ?f x = g) ?xs)) [0..<nat E])"
    using eq by (auto intro!: arg_cong[where f=concat])
  also have "\<dots> = map snd (concat (map (\<lambda>g. filter (\<lambda>x. ?f x = g) ?xs) [0..<nat E]))"
    by (simp add: map_concat comp_def)
  also have "\<dots> = map snd ?xs" using concat_filter_sorted[OF mono rng] by simp
  finally show ?thesis by simp
qed

subsection \<open>Averaging the groups\<close>

lemma sumGroup_foldl:
  "foldl (\<lambda>acc cur. case acc of (ax, ay, ar, af) \<Rightarrow>
              (ax + bub_x cur, ay + bub_y cur, ar + bub_r cur, af + ratioOf cur))
       (a, b, c, d) g =
   (a + sum_list (map bub_x g), b + sum_list (map bub_y g), c + sum_list (map bub_r g),
    d + sum_list (map ratioOf g))"
  by (induction g arbitrary: a b c d) (simp_all add: algebra_simps)

lemma sumGroup_sums:
  "sumGroup g = (sum_list (map bub_x g), sum_list (map bub_y g), sum_list (map bub_r g),
    sum_list (map ratioOf g))"
  unfolding sumGroup_def by (simp add: sumGroup_foldl)

lemma averageGroup_nonempty: "g \<noteq> [] \<Longrightarrow> averageGroup thr g = Inr (meanBubble thr g)"
  by (simp add: averageGroup_def sumGroup_sums meanBubble_def mean_def)

lemma averageGroup_empty: "averageGroup thr [] = Inl NotANumber"
  by (simp add: averageGroup_def sumGroup_sums)

lemma collect_all_Inr: "collect (map Inr vs) = Inr vs"
  by (induction vs) simp_all

lemma collect_averages:
  "\<forall>g\<in>set groups. g \<noteq> [] \<Longrightarrow>
     collect (map (averageGroup thr) groups) = Inr (map (meanBubble thr) groups)"
  by (induction groups) (simp_all add: averageGroup_nonempty)

lemma mergeRow_char:
  assumes "0 < E" "E \<le> int (length row)"
  shows "mergeRow thr E row = Inr (map (meanBubble thr) (map (groupMembers E row) [0..<nat E]))"
proof -
  have "\<forall>g\<in>set (map (groupMembers E row) [0..<nat E]). g \<noteq> []"
    using groupMembers_nonempty[OF assms] by auto
  then show ?thesis
    by (simp only: mergeRow_def makeGroups_char[OF assms] sum.case collect_averages)
qed

lemma ratioOf_meanBubble: "ratioOf (meanBubble thr g) = mean (map ratioOf g)"
  by (simp add: ratioOf_def meanBubble_def)

text \<open>A negative count: the first \<^verbatim>\<open>push\<close> is on a missing group.\<close>

lemma makeGroups_negative: "E < 0 \<Longrightarrow> row \<noteq> [] \<Longrightarrow> makeGroups E row = Inl TypeError"
  by (cases row) (simp_all add: makeGroups_def Let_def)

lemma mergeRow_negative: "E < 0 \<Longrightarrow> row \<noteq> [] \<Longrightarrow> mergeRow thr E row = Inl TypeError"
  by (simp add: mergeRow_def makeGroups_negative)

text \<open>
  Claim C9. For a row of \<open>n\<close> bubbles and a count \<open>0 < E < n\<close>, the assignment of bubble
  \<open>i\<close> to group \<open>\<lfloor>i * E / n\<rfloor>\<close> reaches every group \<open>0, \<dots>, E - 1\<close>; the loop of the
  source builds exactly these groups, all of them non-empty, and the merge returns
  \<open>E\<close> bubbles whose \<open>x\<close>, \<open>y\<close>, \<open>r\<close> and fill ratio are the sums over the group
  divided by its non-zero size: the outcome \<open>NotANumber\<close> does not occur.
\<close>

theorem partition_groups_nonempty:
  assumes "0 < E" "E < int (length row)"
  shows "(\<forall>g<nat E. \<exists>i<length row. groupIndex i E (length row) = int g)
       \<and> makeGroups E row = Inr (map (groupMembers E row) [0..<nat E])
       \<and> (\<forall>g<nat E. groupMembers E row g \<noteq> [])
       \<and> (\<exists>inRow. mergeRow thr E row = Inr inRow \<and> length inRow = nat E
            \<and> (\<forall>g<nat E.
                  bub_x (inRow ! g) = sum_list (map bub_x (groupMembers E row g)) / real (length (groupMembers E row g))
                \<and> bub_y (inRow ! g) = sum_list (map bub_y (groupMembers E row g)) / real (length (groupMembers E row g))
                \<and> bub_r (inRow ! g) = sum_list (map bub_r (groupMembers E row g)) / real (length (groupMembers E row g))
                \<and> filledRatio (inRow ! g) = Some (sum_list (map ratioOf (groupMembers E row g)) / real (length (groupMembers E row g)))
                \<and> length (groupMembers E row g) \<noteq> 0))"
proof -
  have le: "E \<le> int (length row)" using assms(2) by simp
  have a: "\<forall>g<nat E. \<exists>i<length row. groupIndex i E (length row) = int g"
    using groupIndex_surj[OF assms(1) le] by blast
  have b: "\<forall>g<nat E. groupMembers E row g \<noteq> []"
    using groupMembers_nonempty[OF assms(1) le] by blast
  have c: "mergeRow thr E row = Inr (map (meanBubble thr) (map (groupMembers E row) [0..<nat E]))"
    by (rule mergeRow_char[OF assms(1) le])
  show ?thesis
    using a b makeGroups_char[OF assms(1) le]
    by (simp add: c meanBubble_def mean_def)
qed

theorem partition_groups_nonempty_witness:
  "(0::int) < 4 \<and> 4 < int (length rowOfFive)
   \<and> makeGroups 4 rowOfFive =
       Inr [[bubbleAt 100 100 0.1, bubbleAt 104 100 0.3], [bubbleAt 200 100 0.9],
            [bubbleAt 300 100 0.1], [bubbleAt 400 100 0.1]]
   \<and> (\<exists>inRow. mergeRow 0.35 4 rowOfFive = Inr inRow \<and> length inRow = 4
         \<and> filledRatio (inRow ! 0) = Some 0.2)"
proof -
  have g: "map (groupMembers 4 rowOfFive) [0..<4] =
       [[bubbleAt 100 100 0.1, bubbleAt 104 100 0.3], [bubbleAt 200 100 0.9],
        [bubbleAt 300 100 0.1], [bubbleAt 400 100 0.1]]"
    by (simp add: groupMembers_def groupIndex_def rowOfFive_def upt_rec enumerate_eq_zip)
  have g0: "groupMembers 4 rowOfFive 0 = [bubbleAt 100 100 0.1, bubbleAt 104 100 0.3]"
    by (simp add: groupMembers_def groupIndex_def rowOfFive_def upt_rec enumerate_eq_zip)
  have h: "(0::int) < 4" "4 < int (length rowOfFive)" by (simp_all add: rowOfFive_def)
  show ?thesis
    using partition_groups_nonempty[OF h, of "0.35"] h
    by (auto simp: g g0 ratioOf_def bubbleAt_def)
qed

section \<open>The argmax loop\<close>

lemma argmaxLoop_spec:
  "argmaxLoop ss i (mi, ms) = (ri, rs) \<Longrightarrow>
     (\<forall>s\<in>set ss. s \<le> rs) \<and> ms \<le> rs \<and>
     ((ri = mi \<and> rs = ms) \<or>
      (\<exists>k<length ss. ri = int (i + k) \<and> ss ! k = rs \<and> ms < rs \<and> (\<forall>j<k. ss ! j < rs)))"
proof (induction ss arbitrary: i mi ms)
  case Nil
  then show ?case by simp
next
  case (Cons s ss)
  show ?case
  proof (cases "s > ms")
    case True
    then have r: "argmaxLoop ss (Suc i) (int i, s) = (ri, rs)" using Cons.prems by simp
    note ih = Cons.IH[OF r]
    from ih have all: "\<forall>t\<in>set (s # ss). t \<le> rs" and le: "ms \<le> rs" using True by auto
    from ih consider (same) "ri = int i" "rs = s"
      | (later) k where "k < length ss" "ri = int (Suc i + k)" "ss ! k = rs" "s < rs" "\<forall>j<k. ss ! j < rs"
      by blast
    then have "\<exists>k<length (s # ss). ri = int (i + k) \<and> (s # ss) ! k = rs \<and> ms < rs \<and> (\<forall>j<k. (s # ss) ! j < rs)"
    proof cases
      case same
      then show ?thesis using True by (intro exI[of _ 0]) simp
    next
      case later
      then show ?thesis using True by (intro exI[of _ "Suc k"]) (auto simp: nth_Cons split: nat.splits)
    qed
    with all le show ?thesis by blast
  next
    case False
    then have r: "argmaxLoop ss (Suc i) (mi, ms) = (ri, rs)" using Cons.prems by simp
    note ih = Cons.IH[OF r]
    from ih have all: "\<forall>t\<in>set (s # ss). t \<le> rs" and le: "ms \<le> rs" using False by auto
    from ih consider (same) "ri = mi" "rs = ms"
      | (later) k where "k < length ss" "ri = int (Suc i + k)" "ss ! k = rs" "ms < rs" "\<forall>j<k. ss ! j < rs"
      by blast
    then have "(ri = mi \<and> rs = ms) \<or> (\<exists>k<length (s # ss). ri = int (i + k) \<and> (s # ss) ! k = rs \<and> ms < rs \<and> (\<forall>j<k. (s # ss) ! j < rs))"
    proof cases
      case same
      then show ?thesis by simp
    next
      case later
      then have "\<exists>k<length (s # ss). ri = int (i + k) \<and> (s # ss) ! k = rs \<and> ms < rs \<and> (\<forall>j<k. (s # ss) ! j < rs)"
        using False by (intro exI[of _ "Suc k"]) (auto simp: nth_Cons split: nat.splits)
      then show ?thesis by blast
    qed
    with all le show ?thesis by blast
  qed
qed

text \<open>No answer: every score is below the threshold.\<close>

lemma selectScores_None:
  "selectScores thr scs = None \<Longrightarrow> \<forall>j<length scs. scs ! j < thr"
proof -
  assume a: "selectScores thr scs = None"
  obtain ri rs where r: "argmaxLoop scs 0 (- 1, - 1) = (ri, rs)" by fastforce
  from a r have "rs < thr" by (simp add: selectScores_def split: if_splits)
  moreover from argmaxLoop_spec[OF r] have "\<forall>s\<in>set scs. s \<le> rs" by blast
  then have "\<forall>j<length scs. scs ! j \<le> rs" by simp
  ultimately show ?thesis by (meson le_less_trans)
qed

lemma selectScores_Some:
  assumes "selectScores thr scs = Some i" "i \<noteq> - 1"
  shows "0 \<le> i \<and> nat i < length scs \<and> thr \<le> scs ! nat i
          \<and> (\<forall>j<length scs. scs ! j \<le> scs ! nat i) \<and> (\<forall>j<nat i. scs ! j < scs ! nat i)"
proof -
  obtain ri rs where r: "argmaxLoop scs 0 (- 1, - 1) = (ri, rs)" by fastforce
  from assms(1) r have s: "ri = i" "thr \<le> rs" by (simp_all add: selectScores_def split: if_splits)
  from argmaxLoop_spec[OF r] assms(2) s(1) obtain k where
    k: "k < length scs" "i = int k" "scs ! k = rs" "\<forall>j<k. scs ! j < rs" and all: "\<forall>s\<in>set scs. s \<le> rs"
    by auto
  show ?thesis using k all s(2) by simp
qed

lemma selectScores_sentinel:
  assumes "selectScores thr scs = Some (- 1)"
  shows "\<forall>s\<in>set scs. s \<le> - 1"
proof -
  obtain ri rs where r: "argmaxLoop scs 0 (- 1, - 1) = (ri, rs)" by fastforce
  from assms r have s: "ri = - 1" by (simp_all add: selectScores_def split: if_splits)
  from argmaxLoop_spec[OF r] s have "rs = - 1" by auto
  moreover from argmaxLoop_spec[OF r] have "\<forall>s\<in>set scs. s \<le> rs" by blast
  ultimately show ?thesis by simp
qed

lemma selectScores_isAnswerFor:
  assumes "\<exists>s\<in>set scs. - 1 < s"
  shows "isAnswerFor thr scs (selectScores thr scs)"
proof (cases "selectScores thr scs")
  case None
  then show ?thesis using selectScores_None[OF None] by (simp add: isAnswerFor_def)
next
  case (Some i)
  have "i \<noteq> - 1" using selectScores_sentinel[of thr scs] Some assms by fastforce
  from selectScores_Some[OF Some this] show ?thesis by (simp add: isAnswerFor_def Some)
qed

text \<open>Above the greatest score there is no answer.\<close>

lemma selectScores_above:
  assumes "selectScores thr scs = Some i" "0 \<le> i" "scs ! nat i < thr'"
  shows "selectScores thr' scs = None"
proof -
  obtain ri rs where r: "argmaxLoop scs 0 (- 1, - 1) = (ri, rs)" by fastforce
  from assms(1) r have s: "ri = i" by (simp_all add: selectScores_def split: if_splits)
  from argmaxLoop_spec[OF r] assms(2) s obtain k where
    k: "k < length scs" "i = int k" "scs ! k = rs" by auto
  then have "rs < thr'" using assms(3) by simp
  then show ?thesis using r by (simp add: selectScores_def)
qed

section \<open>Sorting, clustering and classification\<close>

subsection \<open>Sorting\<close>

lemma mset_insert_by: "mset (insert_by cmp a xs) = add_mset a (mset xs)"
  by (induction xs) simp_all

lemma mset_sort_by: "mset (sort_by cmp xs) = mset xs"
  unfolding sort_by_def by (induction xs) (simp_all add: mset_insert_by)

lemma set_sort_by: "set (sort_by cmp xs) = set xs"
  using mset_sort_by[of cmp xs] by (metis set_mset_mset)

lemma length_sort_by: "length (sort_by cmp xs) = length xs"
  using mset_sort_by[of cmp xs] by (metis size_mset)

lemma sort_by_Nil_iff: "sort_by cmp xs = [] \<longleftrightarrow> xs = []"
  using length_sort_by[of cmp xs] by (metis length_0_conv)

lemma set_insert_by: "set (insert_by cmp a xs) = insert a (set xs)"
  using mset_insert_by[of cmp a xs] by (metis set_mset_mset set_mset_add_mset_insert)

lemma sorted_insert_by_cmpX:
  "sorted (map bub_x xs) \<Longrightarrow> sorted (map bub_x (insert_by cmpX a xs))"
  by (induction xs) (auto simp: cmpX_def set_insert_by)

lemma sorted_sort_by_cmpX: "sorted (map bub_x (sort_by cmpX xs))"
  unfolding sort_by_def by (induction xs) (simp_all add: sorted_insert_by_cmpX)

subsection \<open>Clustering\<close>

lemma clusterStep_concat:
  "concat (clusterStep tol rws b) = concat rws @ [b]"
proof (cases "rws = []")
  case True
  then show ?thesis by (simp add: clusterStep_def)
next
  case False
  then have "concat (butlast rws) @ last rws = concat rws"
    by (metis append_butlast_last_id concat.simps concat_append append_Nil2)
  then show ?thesis using False by (auto simp: clusterStep_def Let_def)
qed

lemma clusterStep_nonempty:
  "\<forall>r\<in>set rws. r \<noteq> [] \<Longrightarrow> \<forall>r\<in>set (clusterStep tol rws b). r \<noteq> []"
  by (auto simp: clusterStep_def Let_def dest: in_set_butlastD)

lemma foldl_clusterStep:
  "\<forall>r\<in>set rws. r \<noteq> [] \<Longrightarrow>
     concat (foldl (clusterStep tol) rws bs) = concat rws @ bs
     \<and> (\<forall>r\<in>set (foldl (clusterStep tol) rws bs). r \<noteq> [])"
proof (induction bs arbitrary: rws)
  case Nil
  then show ?case by simp
next
  case (Cons b bs)
  from Cons.IH[OF clusterStep_nonempty[OF Cons.prems]]
  show ?case by (simp add: clusterStep_concat)
qed

lemma concat_cluster: "concat (cluster tol bs) = bs"
  unfolding cluster_def using foldl_clusterStep[of "[]" tol bs] by simp

lemma cluster_rows_nonempty: "r \<in> set (cluster tol bs) \<Longrightarrow> r \<noteq> []"
  unfolding cluster_def using foldl_clusterStep[of "[]" tol bs] by simp

lemma cluster_members: "r \<in> set (cluster tol bs) \<Longrightarrow> set r \<subseteq> set bs"
  using concat_cluster[of tol bs] by (metis Sup_upper set_concat image_eqI)

lemma cluster_Nil: "cluster tol [] = []"
  by (simp add: cluster_def)

subsection \<open>Classification\<close>

lemma fillOf_range: "w \<le> t \<Longrightarrow> 0 \<le> fillOf (t, w) \<and> fillOf (t, w) \<le> 1"
  by (simp add: fillOf_def Let_def)

lemma maskCounts_contract:
  "maskContract cv \<Longrightarrow> snd (maskCounts cv src blurred b) \<le> fst (maskCounts cv src blurred b)"
  by (simp add: maskContract_def maskCounts_def Let_def)

lemma ratioOf_classifyOne:
  "ratioOf (classifyOne cv opts src blurred b) = fillOf (maskCounts cv src blurred b)"
  by (simp add: classifyOne_def ratioOf_def Let_def)

lemma classify_ratio_range:
  assumes "maskContract cv" "b \<in> set (classify cv opts src blurred bs)"
  shows "0 \<le> ratioOf b \<and> ratioOf b \<le> 1"
proof -
  obtain b0 where b0: "b = classifyOne cv opts src blurred b0" using assms(2) by (auto simp: classify_def)
  obtain t w where tw: "maskCounts cv src blurred b0 = (t, w)" by fastforce
  have "w \<le> t" using maskCounts_contract[OF assms(1), of src blurred b0] tw by simp
  from fillOf_range[OF this] show ?thesis by (simp add: b0 ratioOf_classifyOne tw)
qed

lemma rows_ratio_range:
  assumes "maskContract cv" "row \<in> set (rowsOf cv opts src gray)" "b \<in> set row"
  shows "0 \<le> ratioOf b \<and> ratioOf b \<le> 1"
proof -
  have "b \<in> set (filledBubblesOf cv opts src gray)"
    using cluster_members assms(2,3) unfolding rowsOf_def by blast
  then have "b \<in> set (classify cv opts src (blurredOf cv gray) (candidates cv opts gray))"
    by (simp add: filledBubblesOf_def set_sort_by)
  from classify_ratio_range[OF assms(1) this] show ?thesis .
qed

lemma rows_nonempty: "row \<in> set (rowsOf cv opts src gray) \<Longrightarrow> row \<noteq> []"
  unfolding rowsOf_def by (rule cluster_rows_nonempty)

section \<open>The selection stage\<close>

subsection \<open>The options of a row\<close>

lemma optionsInRow_valid:
  "validCount opts \<Longrightarrow> optionsInRow opts row = Inr (mergedOrRaw opts row)"
  by (auto simp: validCount_def optionsInRow_def mergedOrRaw_def mergeRow_char split: option.splits)

lemma optionsInRow_Inr:
  assumes "optionsInRow opts row = Inr inRow" "row \<noteq> []"
  shows "inRow = mergedOrRaw opts row \<and> validCount opts"
proof (cases "expectedOptions opts")
  case None
  then show ?thesis using assms by (simp add: optionsInRow_def mergedOrRaw_def validCount_def)
next
  case (Some E)
  have "\<not> E < 0" using assms mergeRow_negative[of E row "fillThr opts"] Some
    by (auto simp: optionsInRow_def)
  then have v: "validCount opts" by (simp add: validCount_def Some)
  from optionsInRow_valid[OF v, of row] assms(1) show ?thesis using v by simp
qed

lemma set_groupMembers: "set (groupMembers E row g) \<subseteq> set row"
  unfolding groupMembers_def by (auto simp: in_set_enumerate_eq)

lemma mean_range:
  assumes "vs \<noteq> []" "\<forall>v\<in>set vs. 0 \<le> v \<and> v \<le> (1::real)"
  shows "0 \<le> mean vs \<and> mean vs \<le> 1"
proof -
  have "0 \<le> sum_list vs" using assms(2) by (simp add: sum_list_nonneg)
  moreover have "sum_list (map (\<lambda>v. v) vs) \<le> sum_list (map (\<lambda>v. 1) vs)"
    using assms(2) by (intro sum_list_mono) simp
  then have "sum_list vs \<le> real (length vs)" by (simp add: sum_list_triv)
  ultimately show ?thesis using assms(1) by (simp add: mean_def)
qed

lemma mergedOrRaw_nonempty: "row \<noteq> [] \<Longrightarrow> mergedOrRaw opts row \<noteq> []"
  by (auto simp: mergedOrRaw_def split: option.splits)

lemma mergedOrRaw_range:
  assumes "\<forall>b\<in>set row. 0 \<le> ratioOf b \<and> ratioOf b \<le> 1" "c \<in> set (mergedOrRaw opts row)"
  shows "0 \<le> ratioOf c \<and> ratioOf c \<le> 1"
proof (cases "\<exists>E. expectedOptions opts = Some E \<and> 0 < E \<and> E < int (length row)")
  case False
  then have "mergedOrRaw opts row = row" by (auto simp: mergedOrRaw_def split: option.splits)
  then show ?thesis using assms by simp
next
  case True
  then obtain E where E: "expectedOptions opts = Some E" "0 < E" "E < int (length row)" by blast
  then obtain g where g: "g < nat E" "c = meanBubble (fillThr opts) (groupMembers E row g)"
    using assms(2) by (auto simp: mergedOrRaw_def)
  have ne: "groupMembers E row g \<noteq> []" using groupMembers_nonempty[of E row g] E g(1) by simp
  have "\<forall>v\<in>set (map ratioOf (groupMembers E row g)). 0 \<le> v \<and> v \<le> 1"
    using assms(1) set_groupMembers[of E row g] by auto
  from mean_range[OF _ this] ne show ?thesis by (simp add: g(2) ratioOf_meanBubble)
qed

lemma length_mergedOrRaw:
  "expectedOptions opts = Some E \<Longrightarrow> 0 < E \<Longrightarrow>
     length (mergedOrRaw opts row) = min (length row) (nat E)"
  by (auto simp: mergedOrRaw_def)

subsection \<open>One row, all rows\<close>

lemma selectRow_Inr:
  assumes "selectRow opts qi rw = Inr q" "rw \<noteq> []"
  shows "validCount opts \<and>
         q = \<lparr>index = qi + 1,
              selected = selectScores (fillThr opts)
                           (map ratioOf (mergedOrRaw opts (sort_by cmpX rw))),
              scores = map ratioOf (mergedOrRaw opts (sort_by cmpX rw))\<rparr>"
proof -
  obtain inRow where i: "optionsInRow opts (sort_by cmpX rw) = Inr inRow"
    using assms(1) by (auto simp: selectRow_def Let_def split: sum.splits)
  have "sort_by cmpX rw \<noteq> []" using assms(2) by (simp add: sort_by_Nil_iff)
  from optionsInRow_Inr[OF i this] assms(1) i show ?thesis
    by (auto simp: selectRow_def Let_def)
qed

lemma selectRow_valid:
  "validCount opts \<Longrightarrow>
     selectRow opts qi rw =
       Inr \<lparr>index = qi + 1,
            selected = selectScores (fillThr opts)
                         (map ratioOf (mergedOrRaw opts (sort_by cmpX rw))),
            scores = map ratioOf (mergedOrRaw opts (sort_by cmpX rw))\<rparr>"
  by (simp add: selectRow_def optionsInRow_valid Let_def)

lemma selectLoop_Inr:
  "selectLoop opts k rws = Inr qs \<Longrightarrow>
     length qs = length rws \<and> (\<forall>i<length rws. selectRow opts (k + i) (rws ! i) = Inr (qs ! i))"
proof (induction rws arbitrary: k qs)
  case Nil
  then show ?case by simp
next
  case (Cons rw rws)
  from Cons.prems obtain q qs' where
    q: "selectRow opts k rw = Inr q" "selectLoop opts (Suc k) rws = Inr qs'" "qs = q # qs'"
    by (auto split: sum.splits)
  from Cons.IH[OF q(2)] q(1,3) show ?case by (auto simp: nth_Cons split: nat.splits)
qed

lemma selectLoop_valid:
  "validCount opts \<Longrightarrow> \<exists>qs. selectLoop opts k rws = Inr qs"
proof (induction rws arbitrary: k)
  case Nil
  then show ?case by simp
next
  case (Cons rw rws)
  from Cons.IH[OF Cons.prems, of "Suc k"] obtain qs where "selectLoop opts (Suc k) rws = Inr qs" by blast
  then show ?case using selectRow_valid[OF Cons.prems, of k rw] by simp
qed

lemma selectLoop_invalid:
  "\<not> validCount opts \<Longrightarrow> rws \<noteq> [] \<Longrightarrow> hd rws \<noteq> [] \<Longrightarrow> selectLoop opts k rws = Inl TypeError"
proof -
  assume a: "\<not> validCount opts" "rws \<noteq> []" "hd rws \<noteq> []"
  then obtain rw rest where r: "rws = rw # rest" "rw \<noteq> []" by (cases rws) auto
  obtain E where E: "expectedOptions opts = Some E" "E < 0"
    using a(1) by (auto simp: validCount_def split: option.splits)
  have "sort_by cmpX rw \<noteq> []" using r(2) by (simp add: sort_by_Nil_iff)
  then have "optionsInRow opts (sort_by cmpX rw) = Inl TypeError"
    using E by (simp add: optionsInRow_def mergeRow_negative)
  then show ?thesis by (simp add: r selectRow_def)
qed

subsection \<open>The whole call\<close>

lemma analyzeFrom_Inr:
  "analyzeFrom cv opts src gray = Inr res \<Longrightarrow>
     selectAll opts (rowsOf cv opts src gray) = Inr (questions res)
     \<and> bubbles res = filledBubblesOf cv opts src gray"
  by (auto simp: analyzeFrom_def split: sum.splits)

lemma analyzeFrom_question:
  assumes "analyzeFrom cv opts src gray = Inr res" "qi < length (questions res)"
  shows "qi < length (rowsOf cv opts src gray) \<and> validCount opts \<and>
         questions res ! qi =
           \<lparr>index = qi + 1,
            selected = selectScores (fillThr opts)
              (map ratioOf (mergedOrRaw opts (sort_by cmpX (rowsOf cv opts src gray ! qi)))),
            scores = map ratioOf (mergedOrRaw opts (sort_by cmpX (rowsOf cv opts src gray ! qi)))\<rparr>"
proof -
  let ?rws = "rowsOf cv opts src gray"
  have s: "selectLoop opts 0 ?rws = Inr (questions res)"
    using analyzeFrom_Inr[OF assms(1)] by (simp add: selectAll_def)
  from selectLoop_Inr[OF s] assms(2) have
    l: "qi < length ?rws" and r: "selectRow opts qi (?rws ! qi) = Inr (questions res ! qi)" by auto
  have "?rws ! qi \<noteq> []" using rows_nonempty[of "?rws ! qi" cv opts src gray] l by simp
  from selectRow_Inr[OF r this] l show ?thesis by simp
qed

lemma analyzeFrom_valid:
  "validCount opts \<Longrightarrow> \<exists>res. analyzeFrom cv opts src gray = Inr res"
  using selectLoop_valid[of opts 0 "rowsOf cv opts src gray"]
  by (auto simp: analyzeFrom_def selectAll_def)

lemma length_questions:
  "analyzeFrom cv opts src gray = Inr res \<Longrightarrow>
     length (questions res) = length (rowsOf cv opts src gray)"
  using analyzeFrom_Inr[of cv opts src gray res] selectLoop_Inr[of opts 0 "rowsOf cv opts src gray" "questions res"]
  by (simp add: selectAll_def)

lemma question_scores_ok:
  assumes "maskContract cv" "qi < length (rowsOf cv opts src gray)"
  shows "mergedOrRaw opts (sort_by cmpX (rowsOf cv opts src gray ! qi)) \<noteq> []
       \<and> (\<forall>c\<in>set (mergedOrRaw opts (sort_by cmpX (rowsOf cv opts src gray ! qi))).
             0 \<le> ratioOf c \<and> ratioOf c \<le> 1)"
proof -
  let ?rw = "rowsOf cv opts src gray ! qi"
  have m: "?rw \<in> set (rowsOf cv opts src gray)" using assms(2) by simp
  have ne: "sort_by cmpX ?rw \<noteq> []" using rows_nonempty[OF m] by (simp add: sort_by_Nil_iff)
  have rg: "\<forall>b\<in>set (sort_by cmpX ?rw). 0 \<le> ratioOf b \<and> ratioOf b \<le> 1"
    using rows_ratio_range[OF assms(1) m] by (simp add: set_sort_by)
  show ?thesis using mergedOrRaw_nonempty[OF ne] mergedOrRaw_range[OF rg] by blast
qed

section \<open>The synthetic sheet, stage by stage\<close>

lemma hypot_less_iff: "0 < t \<Longrightarrow> hypot dx dy < t \<longleftrightarrow> dx * dx + dy * dy < t * t"
proof -
  assume t: "0 < t"
  have "sqrt (dx * dx + dy * dy) < t \<longleftrightarrow> sqrt (dx * dx + dy * dy) < sqrt (t * t)"
    using t by simp
  also have "\<dots> \<longleftrightarrow> dx * dx + dy * dy < t * t" by (rule real_sqrt_less_iff)
  finally show ?thesis by (simp add: hypot_def)
qed

lemma sheet_contours: "contoursOf sheetCv (blurredOf sheetCv g) = sheetContours"
  by (simp add: contoursOf_def sheetCv_def)

lemma sheet_circularity:
  "1 / 2 \<le> circularity sheetCv (300, 62, c)" "1 / 2 \<le> circularity sheetCv (100, 36, c)"
  using pi_ge_two by (simp_all add: circularity_def sheetCv_def)

lemma sheet_fields:
  "cv_contourArea sheetCv c = fst c" "cv_arcLength sheetCv c = fst (snd c)"
  "cv_minEnclosingCircle sheetCv c = snd (snd c)"
  "cv_rows sheetCv m = 2000" "cv_cols sheetCv m = 1500" "cv_cvtColor sheetCv m = Gray"
  "cv_CLAHE sheetCv m = None"
  by (simp_all add: sheetCv_def)

lemma sheet_firstStep:
  assumes "minBubbleArea opts = None" "maxBubbleArea opts = None"
  shows "firstStep sheetCv opts bs (i, (300, 62, (cx, cy), rad)) = bs @ [detectedAt (int i) cx cy rad]"
    and "firstStep sheetCv opts bs (i, (100, p, c)) = bs"
    and "firstStep sheetCv opts bs (i, (10, p, c)) = bs"
  using assms sheet_circularity(1)[of "((cx, cy), rad)"]
  by (simp_all add: firstStep_def minArea_def maxArea_def sheet_fields
      mkBubble_def detectedAt_def)

lemma sheet_firstPass:
  assumes "minBubbleArea opts = None" "maxBubbleArea opts = None"
  shows "firstPass sheetCv opts sheetContours = take 6 sheetCandidates"
  by (simp add: firstPass_def sheetContours_def sheet_firstStep[OF assms] sheetCandidates_def)


lemma nearby_iff:
  "nearby cx cy radius b \<longleftrightarrow>
     (bub_x b - cx) * (bub_x b - cx) + (bub_y b - cy) * (bub_y b - cy)
       < max 5 (radius * 0.6) * max 5 (radius * 0.6)"
  unfolding nearby_def by (rule hypot_less_iff) simp

lemma sheet_relaxedStep:
  assumes "minBubbleArea opts = None" "maxBubbleArea opts = None"
  shows "relaxedStep sheetCv opts bs (i, (300, 62, (cx, cy), rad)) =
           (case find (nearby cx cy rad) bs of
              None \<Rightarrow> bs @ [detectedAt (int i) cx cy rad] | Some b \<Rightarrow> bs)"
    and "relaxedStep sheetCv opts bs (i, (100, 36, (cx, cy), rad)) =
           (case find (nearby cx cy rad) bs of
              None \<Rightarrow> bs @ [detectedAt (int i) cx cy rad] | Some b \<Rightarrow> bs)"
    and "relaxedStep sheetCv opts bs (i, (10, p, c)) = bs"
  using assms sheet_circularity(1)[of "((cx, cy), rad)"] sheet_circularity(2)[of "((cx, cy), rad)"]
  by (simp_all add: relaxedStep_def minArea_def maxArea_def sheet_fields
      mkBubble_def detectedAt_def cong: option.case_cong)

lemma sheet_relaxedPass:
  assumes "minBubbleArea opts = None" "maxBubbleArea opts = None"
  shows "relaxedPass sheetCv opts sheetContours (take 6 sheetCandidates) = sheetCandidates"
  by (simp add: relaxedPass_def sheetContours_def sheet_relaxedStep[OF assms] sheetCandidates_def
      nearby_iff detectedAt_def)

lemma sheet_candidates:
  assumes "minBubbleArea opts = None" "maxBubbleArea opts = None"
  shows "candidates sheetCv opts g = sheetCandidates"
  by (simp add: candidates_def sheet_contours extractBubbles_def sheet_firstPass[OF assms]
      sheet_relaxedPass[OF assms] Let_def)


lemma sheet_maskCounts:
  "maskCounts sheetCv src blurred b = (100, whitePixels (round (bub_x b)) (round (bub_y b)))"
  by (simp add: maskCounts_def sheetCv_def)

lemma sheet_classify:
  assumes "fillThreshold opts = None"
  shows "classify sheetCv opts src blurred sheetCandidates =
     [classifiedAt 0 100 100 10 0.1 False, classifiedAt 1 200 100 10 0.9 True,
      classifiedAt 2 300 100 10 0.1 False,
      classifiedAt 6 100 200 10 0.1 False, classifiedAt 7 200 200 10 0.1 False,
      classifiedAt 8 300 200 10 0.9 True, classifiedAt 4 400 100 6 0.1 False]"
  using assms
  by (simp add: classify_def classifyOne_def sheet_maskCounts fillOf_def fillThr_def
      sheetCandidates_def detectedAt_def classifiedAt_def whitePixels_def)

lemma sheet_filledBubbles:
  assumes "minBubbleArea opts = None" "maxBubbleArea opts = None" "fillThreshold opts = None"
  shows "filledBubblesOf sheetCv opts src g = sheetBubbles"
  by (simp add: filledBubblesOf_def sheet_candidates[OF assms(1,2)] sheet_classify[OF assms(3)]
      sort_by_def cmpYX_def classifiedAt_def sheetBubbles_def)

lemma sheet_rows:
  assumes "minBubbleArea opts = None" "maxBubbleArea opts = None" "fillThreshold opts = None"
  shows "rowsOf sheetCv opts src g = sheetRows"
  by (simp add: rowsOf_def sheet_filledBubbles[OF assms] sheet_fields rowTolerance_2000
      cluster_def clusterStep_def avgY_def sheetBubbles_def sheetRows_def classifiedAt_def)

section \<open>Selection on the results of a call\<close>

lemma options_fields:
  "minBubbleArea noOptions = None" "maxBubbleArea noOptions = None"
  "fillThreshold noOptions = None" "expectedOptions noOptions = None"
  "minBubbleArea (withExpected E) = None" "maxBubbleArea (withExpected E) = None"
  "fillThreshold (withExpected E) = None" "expectedOptions (withExpected E) = Some E"
  by (simp_all add: noOptions_def withExpected_def)

lemma sheet_enhance: "enhance sheetCv (cv_cvtColor sheetCv src) = Gray"
  by (simp add: enhance_def sheet_fields)

lemma sheet_sorted_rows:
  "sort_by cmpX (take 4 sheetBubbles) = take 4 sheetBubbles"
  "sort_by cmpX (drop 4 sheetBubbles) = drop 4 sheetBubbles"
  by (simp_all add: sheetBubbles_def sort_by_def cmpX_def classifiedAt_def)

lemma sheet_raw_scores:
  "map ratioOf (take 4 sheetBubbles) = [0.1, 0.9, 0.1, 0.1]"
  "map ratioOf (drop 4 sheetBubbles) = [0.1, 0.1, 0.9]"
  by (simp_all add: sheetBubbles_def ratioOf_def classifiedAt_def)

lemma sheet_select_scores:
  "selectScores 0.35 [0.1, 0.9, 0.1, 0.1] = Some 1"
  "selectScores 0.35 [0.1, 0.1, 0.9] = Some 2"
  "selectScores 0.35 [0.5, 0.1, 0.1] = Some 0"
  "selectScores 0.95 [0.1, 0.9, 0.1, 0.1] = None"
  "selectScores 0.95 [0.1, 0.1, 0.9] = None"
  by (simp_all add: selectScores_def)

lemma sheet_analyze_raw:
  assumes "minBubbleArea opts = None" "maxBubbleArea opts = None" "fillThreshold opts = None"
    and "expectedOptions opts = None \<or> expectedOptions opts = Some 4"
  shows "analyzeOmrImage sheetCv opts Photo =
     Inr \<lparr>questions =
            [\<lparr>index = 1, selected = Some 1, scores = [0.1, 0.9, 0.1, 0.1]\<rparr>,
             \<lparr>index = 2, selected = Some 2, scores = [0.1, 0.1, 0.9]\<rparr>],
          bubbles = sheetBubbles\<rparr>"
proof -
  have v: "validCount opts" using assms(4) by (auto simp: validCount_def)
  have m: "mergedOrRaw opts (take 4 sheetBubbles) = take 4 sheetBubbles"
    "mergedOrRaw opts (drop 4 sheetBubbles) = drop 4 sheetBubbles"
    using assms(4) by (auto simp: mergedOrRaw_def sheetBubbles_def)
  have t: "fillThr opts = 0.35" using assms(3) by (simp add: fillThr_def)
  have q: "selectRow opts 0 (take 4 sheetBubbles) =
        Inr \<lparr>index = 0 + 1, selected = Some 1, scores = [0.1, 0.9, 0.1, 0.1]\<rparr>"
    "selectRow opts (Suc 0) (drop 4 sheetBubbles) =
        Inr \<lparr>index = Suc 0 + 1, selected = Some 2, scores = [0.1, 0.1, 0.9]\<rparr>"
    by (simp_all only: selectRow_valid[OF v] sheet_sorted_rows m t sheet_raw_scores
        sheet_select_scores)
  show ?thesis
    by (simp add: analyzeOmrImage_def analyzeFrom_def sheet_enhance sheet_rows[OF assms(1-3)]
        sheet_filledBubbles[OF assms(1-3)] selectAll_def sheetRows_def q)
qed


lemma analyze_question:
  assumes "analyzeOmrImage cv opts src = Inr res" "qi < length (questions res)"
  shows "qi < length (rowsOf cv opts src (enhance cv (cv_cvtColor cv src))) \<and> validCount opts \<and>
         questions res ! qi =
           \<lparr>index = qi + 1,
            selected = selectScores (fillThr opts)
              (map ratioOf (mergedOrRaw opts
                 (sort_by cmpX (rowsOf cv opts src (enhance cv (cv_cvtColor cv src)) ! qi)))),
            scores = map ratioOf (mergedOrRaw opts
                 (sort_by cmpX (rowsOf cv opts src (enhance cv (cv_cvtColor cv src)) ! qi)))\<rparr>"
  using analyzeFrom_question[of cv opts src "enhance cv (cv_cvtColor cv src)" res qi] assms
  by (simp add: analyzeOmrImage_def)

lemma scores_exceed_sentinel:
  assumes "maskContract cv" "qi < length (rowsOf cv opts src gray)"
  shows "\<exists>s\<in>set (map ratioOf (mergedOrRaw opts (sort_by cmpX (rowsOf cv opts src gray ! qi)))). - 1 < s"
proof -
  let ?inRow = "mergedOrRaw opts (sort_by cmpX (rowsOf cv opts src gray ! qi))"
  from question_scores_ok[OF assms] obtain c where "c \<in> set ?inRow" "0 \<le> ratioOf c"
    by (cases ?inRow) auto
  then show ?thesis by (intro bexI[of _ "ratioOf c"]) auto
qed

lemma sheet_contract: "maskContract sheetCv"
  unfolding maskContract_def
proof (intro allI)
  fix blurred mask :: sheet
  show "cv_countNonZero sheetCv (cv_threshold sheetCv (cv_bitwise_and sheetCv blurred blurred mask))
      \<le> cv_countNonZero sheetCv mask"
    by (cases mask) (simp_all add: sheetCv_def whitePixels_def)
qed

lemma sheet_analyze_noOptions:
  "analyzeOmrImage sheetCv noOptions Photo =
     Inr \<lparr>questions =
            [\<lparr>index = 1, selected = Some 1, scores = [0.1, 0.9, 0.1, 0.1]\<rparr>,
             \<lparr>index = 2, selected = Some 2, scores = [0.1, 0.1, 0.9]\<rparr>],
          bubbles = sheetBubbles\<rparr>"
  by (rule sheet_analyze_raw) (simp_all add: options_fields)

lemma sheet_classify_half:
  assumes "fillThreshold opts = Some (1 / 2)"
  shows "classify sheetCv opts src blurred sheetCandidates =
     [classifiedAt 0 100 100 10 0.1 False, classifiedAt 1 200 100 10 0.9 True,
      classifiedAt 2 300 100 10 0.1 False,
      classifiedAt 6 100 200 10 0.1 False, classifiedAt 7 200 200 10 0.1 False,
      classifiedAt 8 300 200 10 0.9 True, classifiedAt 4 400 100 6 0.1 False]"
  using assms
  by (simp add: classify_def classifyOne_def sheet_maskCounts fillOf_def fillThr_def
      sheetCandidates_def detectedAt_def classifiedAt_def whitePixels_def)

lemma sheet_rows_half:
  assumes "minBubbleArea opts = None" "maxBubbleArea opts = None"
    "fillThreshold opts = Some (1 / 2)"
  shows "filledBubblesOf sheetCv opts src g = sheetBubbles"
    and "rowsOf sheetCv opts src g = sheetRows"
proof -
  show f: "filledBubblesOf sheetCv opts src g = sheetBubbles"
    by (simp add: filledBubblesOf_def sheet_candidates[OF assms(1,2)]
        sheet_classify_half[OF assms(3)] sort_by_def cmpYX_def classifiedAt_def sheetBubbles_def)
  show "rowsOf sheetCv opts src g = sheetRows"
    by (simp add: rowsOf_def f sheet_fields rowTolerance_2000
        cluster_def clusterStep_def avgY_def sheetBubbles_def sheetRows_def classifiedAt_def)
qed

lemma sheet_select_scores_half:
  "selectScores (1 / 2) [0.1, 0.9, 0.1, 0.1] = Some 1"
  "selectScores (1 / 2) [0.1, 0.1, 0.9] = Some 2"
  by (simp_all add: selectScores_def)

lemma sheet_analyze_half:
  "analyzeOmrImage sheetCv (noOptions\<lparr>fillThreshold := Some (1 / 2)\<rparr>) Photo =
     Inr \<lparr>questions =
            [\<lparr>index = 1, selected = Some 1, scores = [0.1, 0.9, 0.1, 0.1]\<rparr>,
             \<lparr>index = 2, selected = Some 2, scores = [0.1, 0.1, 0.9]\<rparr>],
          bubbles = sheetBubbles\<rparr>"
proof -
  let ?opts = "noOptions\<lparr>fillThreshold := Some (1 / 2)\<rparr>"
  have o: "minBubbleArea ?opts = None" "maxBubbleArea ?opts = None"
    "fillThreshold ?opts = Some (1 / 2)" "expectedOptions ?opts = None"
    by (simp_all add: noOptions_def)
  have v: "validCount ?opts" by (simp add: validCount_def o)
  have m: "mergedOrRaw ?opts (take 4 sheetBubbles) = take 4 sheetBubbles"
    "mergedOrRaw ?opts (drop 4 sheetBubbles) = drop 4 sheetBubbles"
    by (simp_all add: mergedOrRaw_def o)
  have t: "fillThr ?opts = 1 / 2" by (simp add: fillThr_def o)
  have q: "selectRow ?opts 0 (take 4 sheetBubbles) =
        Inr \<lparr>index = 0 + 1, selected = Some 1, scores = [0.1, 0.9, 0.1, 0.1]\<rparr>"
    "selectRow ?opts (Suc 0) (drop 4 sheetBubbles) =
        Inr \<lparr>index = Suc 0 + 1, selected = Some 2, scores = [0.1, 0.1, 0.9]\<rparr>"
    by (simp_all only: selectRow_valid[OF v] sheet_sorted_rows m t sheet_raw_scores
        sheet_select_scores_half)
  show ?thesis
    by (simp add: analyzeOmrImage_def analyzeFrom_def sheet_enhance sheet_rows_half[OF o(1-3)]
        selectAll_def sheetRows_def q)
qed

text \<open>
  Claim C1. Over a toolkit that keeps \<open>maskContract\<close>, a returned result has one
  question for each row of the clusterer, in order, and for every row: the row is
  sorted ascending by \<open>x\<close> (a permutation of the clustered row); the question's index is
  the row's position plus one; the scores are the fill ratios of the sorted row, or,
  when a count \<open>0 < E < n\<close> is supplied, the means of the fill ratios over the \<open>E\<close>
  positional groups; and the selected option is the one that \<open>isAnswerFor\<close> prescribes
  for the threshold \<^verbatim>\<open>fillThreshold\<close> of the options, 0.35 when it is absent: none
  when every score is below the threshold, otherwise the first index of the greatest
  score.
\<close>

theorem answer_selection_rule:
  assumes "maskContract cv" and "analyzeOmrImage cv opts src = Inr res"
    and "rws = rowsOf cv opts src (enhance cv (cv_cvtColor cv src))"
    and "thr = (case fillThreshold opts of None \<Rightarrow> 0.35 | Some t \<Rightarrow> t)"
  shows "length (questions res) = length rws
     \<and> (\<forall>qi<length rws.
          sorted (map bub_x (sort_by cmpX (rws ! qi)))
        \<and> mset (sort_by cmpX (rws ! qi)) = mset (rws ! qi)
        \<and> index (questions res ! qi) = qi + 1
        \<and> scores (questions res ! qi) =
            (case expectedOptions opts of
               None \<Rightarrow> map ratioOf (sort_by cmpX (rws ! qi))
             | Some E \<Rightarrow>
                 if 0 < E \<and> E < int (length (rws ! qi))
                 then map (\<lambda>g. mean (map ratioOf (groupMembers E (sort_by cmpX (rws ! qi)) g)))
                        [0..<nat E]
                 else map ratioOf (sort_by cmpX (rws ! qi)))
        \<and> isAnswerFor thr (scores (questions res ! qi)) (selected (questions res ! qi)))"
proof -
  let ?gray = "enhance cv (cv_cvtColor cv src)"
  have len: "length (questions res) = length rws"
    using length_questions[of cv opts src ?gray res] assms(2,3) by (simp add: analyzeOmrImage_def)
  have t: "thr = fillThr opts" by (simp add: assms(4) fillThr_def)
  have "sorted (map bub_x (sort_by cmpX (rws ! qi)))
        \<and> mset (sort_by cmpX (rws ! qi)) = mset (rws ! qi)
        \<and> index (questions res ! qi) = qi + 1
        \<and> scores (questions res ! qi) =
            (case expectedOptions opts of
               None \<Rightarrow> map ratioOf (sort_by cmpX (rws ! qi))
             | Some E \<Rightarrow>
                 if 0 < E \<and> E < int (length (rws ! qi))
                 then map (\<lambda>g. mean (map ratioOf (groupMembers E (sort_by cmpX (rws ! qi)) g)))
                        [0..<nat E]
                 else map ratioOf (sort_by cmpX (rws ! qi)))
        \<and> isAnswerFor thr (scores (questions res ! qi)) (selected (questions res ! qi))"
    if qi: "qi < length rws" for qi
  proof -
    let ?row = "sort_by cmpX (rws ! qi)"
    have q: "qi < length (questions res)" using qi len by simp
    note a = analyze_question[OF assms(2) q, folded assms(3)]
    have sc: "scores (questions res ! qi) = map ratioOf (mergedOrRaw opts ?row)"
      and se: "selected (questions res ! qi) = selectScores thr (map ratioOf (mergedOrRaw opts ?row))"
      and ix: "index (questions res ! qi) = qi + 1"
      using a by (simp_all add: t)
    have ex: "map ratioOf (mergedOrRaw opts ?row) =
            (case expectedOptions opts of
               None \<Rightarrow> map ratioOf ?row
             | Some E \<Rightarrow>
                 if 0 < E \<and> E < int (length (rws ! qi))
                 then map (\<lambda>g. mean (map ratioOf (groupMembers E ?row g))) [0..<nat E]
                 else map ratioOf ?row)"
      by (simp add: mergedOrRaw_def length_sort_by ratioOf_meanBubble comp_def
          split: option.splits)
    have l: "qi < length (rowsOf cv opts src ?gray)" using qi assms(3) by simp
    have an: "isAnswerFor thr (scores (questions res ! qi)) (selected (questions res ! qi))"
      unfolding sc se
      using selectScores_isAnswerFor[OF scores_exceed_sentinel[OF assms(1) l], of thr]
      by (simp add: assms(3))
    show ?thesis using sc ex ix an by (simp add: sorted_sort_by_cmpX mset_sort_by)
  qed
  with len show ?thesis by blast
qed

theorem answer_selection_rule_witness:
  "maskContract sheetCv
   \<and> analyzeOmrImage sheetCv (noOptions\<lparr>fillThreshold := Some (1 / 2)\<rparr>) Photo =
       Inr \<lparr>questions =
              [\<lparr>index = 1, selected = Some 1, scores = [0.1, 0.9, 0.1, 0.1]\<rparr>,
               \<lparr>index = 2, selected = Some 2, scores = [0.1, 0.1, 0.9]\<rparr>],
            bubbles = sheetBubbles\<rparr>
   \<and> sheetRows = rowsOf sheetCv (noOptions\<lparr>fillThreshold := Some (1 / 2)\<rparr>) Photo
         (enhance sheetCv (cv_cvtColor sheetCv Photo))
   \<and> (1 / 2 :: real) =
       (case fillThreshold (noOptions\<lparr>fillThreshold := Some (1 / 2)\<rparr>) of
          None \<Rightarrow> 0.35 | Some t \<Rightarrow> t)
   \<and> length sheetRows = 2
   \<and> isAnswerFor (1 / 2) [0.1, 0.9, 0.1, 0.1] (Some 1)
   \<and> isAnswerFor (1 / 2) [0.1, 0.1, 0.9] (Some 2)"
proof -
  let ?opts = "noOptions\<lparr>fillThreshold := Some (1 / 2)\<rparr>"
  have r: "sheetRows = rowsOf sheetCv ?opts Photo (enhance sheetCv (cv_cvtColor sheetCv Photo))"
    by (rule sheet_rows_half(2)[symmetric]) (simp_all add: noOptions_def)
  have t: "(1 / 2 :: real) = (case fillThreshold ?opts of None \<Rightarrow> 0.35 | Some t \<Rightarrow> t)"
    by simp
  have l: "length sheetRows = 2" by (simp add: sheetRows_def)
  note th = answer_selection_rule[OF sheet_contract sheet_analyze_half r t]
  have "isAnswerFor (1 / 2) [0.1, 0.9, 0.1, 0.1] (Some 1)"
    using th[THEN conjunct2, rule_format, of 0, THEN conjunct2, THEN conjunct2, THEN conjunct2,
        THEN conjunct2] l
    by simp
  moreover have "isAnswerFor (1 / 2) [0.1, 0.1, 0.9] (Some 2)"
    using th[THEN conjunct2, rule_format, of 1, THEN conjunct2, THEN conjunct2, THEN conjunct2,
        THEN conjunct2] l
    by simp
  ultimately show ?thesis using sheet_contract sheet_analyze_half r t l by blast
qed

text \<open>
  Claim C10. Over a toolkit that keeps \<open>maskContract\<close>, every question of a returned
  result has at least one score, and its selected option is either absent or an index
  into the scores; the initial value \<open>- 1\<close> of \<^verbatim>\<open>maxIdx\<close> is never returned.
\<close>

theorem question_well_formed:
  assumes "maskContract cv" and "analyzeOmrImage cv opts src = Inr res"
    and "q \<in> set (questions res)"
  shows "scores q \<noteq> [] \<and> selected q \<noteq> Some (- 1)
       \<and> (\<forall>i. selected q = Some i \<longrightarrow> 0 \<le> i \<and> i < int (length (scores q)))"
proof -
  let ?gray = "enhance cv (cv_cvtColor cv src)"
  obtain qi where qi: "qi < length (questions res)" "q = questions res ! qi"
    using assms(3) by (auto simp: in_set_conv_nth)
  note a = analyze_question[OF assms(2) qi(1)]
  then have l: "qi < length (rowsOf cv opts src ?gray)" by simp
  let ?scs = "map ratioOf (mergedOrRaw opts (sort_by cmpX (rowsOf cv opts src ?gray ! qi)))"
  have sc: "scores q = ?scs" and se: "selected q = selectScores (fillThr opts) ?scs"
    using a qi(2) by simp_all
  have ne: "?scs \<noteq> []" using question_scores_ok[OF assms(1) l] by simp
  have "isAnswerFor (fillThr opts) ?scs (selected q)"
    unfolding se by (rule selectScores_isAnswerFor[OF scores_exceed_sentinel[OF assms(1) l]])
  then show ?thesis using ne unfolding sc by (auto simp: isAnswerFor_def)
qed

theorem question_well_formed_witness:
  "maskContract sheetCv
   \<and> \<lparr>index = 2, selected = Some 2, scores = [0.1, 0.1, 0.9]\<rparr>
       \<in> set (questions
            \<lparr>questions =
              [\<lparr>index = 1, selected = Some 1, scores = [0.1, 0.9, 0.1, 0.1]\<rparr>,
               \<lparr>index = 2, selected = Some 2, scores = [0.1, 0.1, 0.9]\<rparr>],
            bubbles = sheetBubbles\<rparr>)
   \<and> scores \<lparr>index = 2, selected = Some 2, scores = [0.1, 0.1, 0.9]\<rparr> \<noteq> []
   \<and> selected \<lparr>index = 2, selected = Some (2::int), scores = [0.1, 0.1, 0.9]\<rparr> \<noteq> Some (- 1)"
  using question_well_formed[OF sheet_contract sheet_analyze_noOptions,
      of "\<lparr>index = 2, selected = Some 2, scores = [0.1, 0.1, 0.9]\<rparr>"] sheet_contract
  by simp


lemma fillThreshold_update:
  "validCount (opts\<lparr>fillThreshold := t\<rparr>) = validCount opts"
  "map ratioOf (mergedOrRaw (opts\<lparr>fillThreshold := t\<rparr>) row) = map ratioOf (mergedOrRaw opts row)"
  "fillThr (opts\<lparr>fillThreshold := Some u\<rparr>) = u"
  by (simp_all add: validCount_def mergedOrRaw_def fillThr_def ratioOf_meanBubble
      split: option.splits)

text \<open>
  Claim C6. When a question of a returned result selects option \<open>i\<close>, whose score is then
  the greatest of the row, running the selection stage again on the same rows with a
  fill threshold above that score returns no answer for that question and the same
  scores for every question.
\<close>

theorem threshold_monotonicity:
  assumes "analyzeOmrImage cv opts src = Inr res" and "qi < length (questions res)"
    and "selected (questions res ! qi) = Some i" and "0 \<le> i"
    and "scores (questions res ! qi) ! nat i < t"
  shows "\<exists>qs. selectAll (opts\<lparr>fillThreshold := Some t\<rparr>)
                 (rowsOf cv opts src (enhance cv (cv_cvtColor cv src))) = Inr qs
            \<and> length qs = length (questions res)
            \<and> selected (qs ! qi) = None
            \<and> (\<forall>k<length qs. scores (qs ! k) = scores (questions res ! k))"
proof -
  let ?rws = "rowsOf cv opts src (enhance cv (cv_cvtColor cv src))"
  let ?opts' = "opts\<lparr>fillThreshold := Some t\<rparr>"
  have len: "length (questions res) = length ?rws"
    using length_questions[of cv opts src _ res] assms(1) by (simp add: analyzeOmrImage_def)
  have v: "validCount opts" using analyze_question[OF assms(1,2)] by simp
  then have v': "validCount ?opts'" by (simp add: fillThreshold_update)
  obtain qs where qs: "selectLoop ?opts' 0 ?rws = Inr qs"
    using selectLoop_valid[OF v'] by blast
  note sl = selectLoop_Inr[OF qs]
  have row: "qs ! k = \<lparr>index = k + 1,
        selected = selectScores t (scores (questions res ! k)),
        scores = scores (questions res ! k)\<rparr>" if "k < length ?rws" for k
  proof -
    have "k < length (questions res)" using that len by simp
    from analyze_question[OF assms(1) this] have
      "scores (questions res ! k) = map ratioOf (mergedOrRaw opts (sort_by cmpX (?rws ! k)))"
      by simp
    moreover have "selectRow ?opts' k (?rws ! k) = Inr (qs ! k)" using sl that by simp
    ultimately show ?thesis
      by (simp add: selectRow_valid[OF v'] fillThreshold_update)
  qed
  have "selectScores (fillThr opts) (scores (questions res ! qi)) = Some i"
    using analyze_question[OF assms(1,2)] assms(3) by simp
  from selectScores_above[OF this assms(4,5)] have "selected (qs ! qi) = None"
    using row[of qi] assms(2) len by simp
  then show ?thesis using qs sl row len by (simp add: selectAll_def)
qed

theorem threshold_monotonicity_witness:
  "analyzeOmrImage sheetCv noOptions Photo =
       Inr \<lparr>questions =
              [\<lparr>index = 1, selected = Some 1, scores = [0.1, 0.9, 0.1, 0.1]\<rparr>,
               \<lparr>index = 2, selected = Some 2, scores = [0.1, 0.1, 0.9]\<rparr>],
            bubbles = sheetBubbles\<rparr>
   \<and> (\<exists>qs. selectAll (noOptions\<lparr>fillThreshold := Some 0.95\<rparr>) sheetRows = Inr qs
           \<and> selected (qs ! 0) = None \<and> scores (qs ! 0) = [0.1, 0.9, 0.1, 0.1])"
proof -
  have r: "rowsOf sheetCv noOptions Photo (enhance sheetCv (cv_cvtColor sheetCv Photo)) = sheetRows"
    by (rule sheet_rows) (simp_all add: options_fields)
  show ?thesis
    using threshold_monotonicity[OF sheet_analyze_noOptions, of 0 1 "0.95"] sheet_analyze_noOptions
    by (auto simp: r)
qed

section \<open>Expected option counts, empty sheets and the enhancement fallback\<close>

lemma length_scores_rule:
  assumes "expectedOptions opts = Some E" "0 < E"
  shows "length (map ratioOf (mergedOrRaw opts row)) = min (length row) (nat E)"
  using length_mergedOrRaw[OF assms] by simp

text \<open>
  Claim C3, as the source has it. When a count \<open>E > 0\<close> is supplied the call returns a
  result with one question per row, and a row of \<open>n\<close> bubbles gives \<open>min n E\<close> scores. A
  row with more than \<open>E\<close> bubbles is cut, in \<open>x\<close> order, into \<open>E\<close> contiguous non-empty
  groups and its scores are the group means of the fill ratios, the merged bubbles
  being those of \<open>meanBubble\<close>; a row with at most \<open>E\<close> bubbles keeps one score for
  each bubble.
\<close>

theorem scores_length_with_expectedOptions:
  assumes "expectedOptions opts = Some E" and "0 < E"
  shows "\<exists>res. analyzeOmrImage cv opts src = Inr res
     \<and> length (questions res) = length (rowsOf cv opts src (enhance cv (cv_cvtColor cv src)))
     \<and> (\<forall>qi<length (questions res).
           length (scores (questions res ! qi))
             = min (length (rowsOf cv opts src (enhance cv (cv_cvtColor cv src)) ! qi)) (nat E)
         \<and> (E < int (length (rowsOf cv opts src (enhance cv (cv_cvtColor cv src)) ! qi)) \<longrightarrow>
              concat (map (groupMembers E
                  (sort_by cmpX (rowsOf cv opts src (enhance cv (cv_cvtColor cv src)) ! qi)))
                  [0..<nat E])
                = sort_by cmpX (rowsOf cv opts src (enhance cv (cv_cvtColor cv src)) ! qi)
            \<and> (\<forall>g<nat E. groupMembers E
                  (sort_by cmpX (rowsOf cv opts src (enhance cv (cv_cvtColor cv src)) ! qi)) g \<noteq> [])
            \<and> scores (questions res ! qi)
                = map (\<lambda>g. mean (map ratioOf (groupMembers E
                    (sort_by cmpX (rowsOf cv opts src (enhance cv (cv_cvtColor cv src)) ! qi)) g)))
                    [0..<nat E]))"
proof -
  let ?gray = "enhance cv (cv_cvtColor cv src)"
  let ?rws = "rowsOf cv opts src ?gray"
  have v: "validCount opts" using assms by (simp add: validCount_def)
  obtain res where res: "analyzeOmrImage cv opts src = Inr res"
    using analyzeFrom_valid[OF v, of cv src ?gray] by (auto simp: analyzeOmrImage_def)
  have len: "length (questions res) = length ?rws"
    using length_questions[of cv opts src ?gray res] res by (simp add: analyzeOmrImage_def)
  have "length (scores (questions res ! qi)) = min (length (?rws ! qi)) (nat E)
      \<and> (E < int (length (?rws ! qi)) \<longrightarrow>
              concat (map (groupMembers E (sort_by cmpX (?rws ! qi))) [0..<nat E])
                = sort_by cmpX (?rws ! qi)
            \<and> (\<forall>g<nat E. groupMembers E (sort_by cmpX (?rws ! qi)) g \<noteq> [])
            \<and> scores (questions res ! qi)
                = map (\<lambda>g. mean (map ratioOf (groupMembers E (sort_by cmpX (?rws ! qi)) g)))
                    [0..<nat E])"
    if qi: "qi < length (questions res)" for qi
  proof -
    let ?row = "sort_by cmpX (?rws ! qi)"
    have sc: "scores (questions res ! qi) = map ratioOf (mergedOrRaw opts ?row)"
      using analyze_question[OF res qi] by simp
    have l: "length (scores (questions res ! qi)) = min (length (?rws ! qi)) (nat E)"
      unfolding sc using length_scores_rule[OF assms, of ?row] by (simp add: length_sort_by)
    have m: "concat (map (groupMembers E ?row) [0..<nat E]) = ?row
        \<and> (\<forall>g<nat E. groupMembers E ?row g \<noteq> [])
        \<and> scores (questions res ! qi)
             = map (\<lambda>g. mean (map ratioOf (groupMembers E ?row g))) [0..<nat E]"
      if long: "E < int (length (?rws ! qi))"
    proof -
      have le: "E \<le> int (length ?row)" and lt: "E < int (length ?row)"
        using long by (simp_all add: length_sort_by)
      have "mergedOrRaw opts ?row = map (meanBubble (fillThr opts)) (map (groupMembers E ?row) [0..<nat E])"
        using assms lt by (simp add: mergedOrRaw_def)
      then have "scores (questions res ! qi)
             = map (\<lambda>g. mean (map ratioOf (groupMembers E ?row g))) [0..<nat E]"
        unfolding sc by (simp add: ratioOf_meanBubble comp_def)
      then show ?thesis
        using concat_groupMembers[OF assms(2) le] groupMembers_nonempty[OF assms(2) le] by blast
    qed
    from l m show ?thesis by blast
  qed
  with res len show ?thesis by blast
qed


theorem scores_length_with_expectedOptions_witness:
  "expectedOptions (withExpected 3) = Some 3 \<and> (0::int) < 3
   \<and> rowsOf sheetCv (withExpected 3) Photo (enhance sheetCv (cv_cvtColor sheetCv Photo)) = sheetRows
   \<and> map length sheetRows = [4, 3]
   \<and> (\<exists>res. analyzeOmrImage sheetCv (withExpected 3) Photo = Inr res
         \<and> length (questions res) = 2
         \<and> length (scores (questions res ! 0)) = 3
         \<and> length (scores (questions res ! 1)) = 3)"
proof -
  have r: "rowsOf sheetCv (withExpected 3) Photo (enhance sheetCv (cv_cvtColor sheetCv Photo)) = sheetRows"
    by (rule sheet_rows) (simp_all add: options_fields)
  have l: "map length sheetRows = [4, 3]" "length sheetRows = 2"
    "length (sheetRows ! 0) = 4" "length (sheetRows ! 1) = 3"
    by (simp_all add: sheetRows_def sheetBubbles_def)
  have h: "expectedOptions (withExpected 3) = Some 3" "(0::int) < 3"
    by (simp_all add: options_fields)
  from scores_length_with_expectedOptions[OF h, of sheetCv Photo]
  obtain res where res: "analyzeOmrImage sheetCv (withExpected 3) Photo = Inr res"
    "length (questions res) = 2"
    "\<forall>qi<length (questions res). length (scores (questions res ! qi)) = min (length (sheetRows ! qi)) (nat 3)"
    unfolding r l by blast
  have "length (scores (questions res ! 0)) = 3" "length (scores (questions res ! 1)) = 3"
    using res(2,3) l(3,4) by simp_all
  with res(1,2) h r l(1) show ?thesis by blast
qed

text \<open>
  Claim C3 as stated fails on a row that has fewer bubbles than the expected count: with
  \<^verbatim>\<open>expectedOptions = 4\<close> the second row of the sheet, of three bubbles, keeps its three
  scores.
\<close>

theorem expectedOptions_short_row_keeps_length:
  "expectedOptions (withExpected 4) = Some 4
   \<and> analyzeOmrImage sheetCv (withExpected 4) Photo =
       Inr \<lparr>questions =
              [\<lparr>index = 1, selected = Some 1, scores = [0.1, 0.9, 0.1, 0.1]\<rparr>,
               \<lparr>index = 2, selected = Some 2, scores = [0.1, 0.1, 0.9]\<rparr>],
            bubbles = sheetBubbles\<rparr>
   \<and> length [0.1, 0.1, 0.9 :: real] \<noteq> 4"
proof -
  have "analyzeOmrImage sheetCv (withExpected 4) Photo =
       Inr \<lparr>questions =
              [\<lparr>index = 1, selected = Some 1, scores = [0.1, 0.9, 0.1, 0.1]\<rparr>,
               \<lparr>index = 2, selected = Some 2, scores = [0.1, 0.1, 0.9]\<rparr>],
            bubbles = sheetBubbles\<rparr>"
    by (rule sheet_analyze_raw) (simp_all add: options_fields)
  then show ?thesis by (simp add: options_fields)
qed

text \<open>
  Claim C7. When the first pass accepts no contour and the relaxed pass adds none, the
  call returns, and its result has no bubbles and no questions.
\<close>

theorem no_candidates_empty_result:
  assumes "firstPass cv opts (contoursOf cv (blurredOf cv (enhance cv (cv_cvtColor cv src)))) = []"
    and "relaxedPass cv opts (contoursOf cv (blurredOf cv (enhance cv (cv_cvtColor cv src)))) [] = []"
  shows "analyzeOmrImage cv opts src = Inr \<lparr>questions = [], bubbles = []\<rparr>"
proof -
  have "candidates cv opts (enhance cv (cv_cvtColor cv src)) = []"
    using assms by (simp add: candidates_def extractBubbles_def)
  then show ?thesis
    by (simp add: analyzeOmrImage_def analyzeFrom_def rowsOf_def filledBubblesOf_def
        classify_def sort_by_def cluster_def selectAll_def)
qed

lemma blank_fields:
  "contoursOf blankCv m = [(10, 12, (350, 150), 2)]"
  "cv_contourArea blankCv c = fst c"
  by (simp_all add: blankCv_def contoursOf_def sheetCv_def)

theorem no_candidates_empty_result_witness:
  "firstPass blankCv noOptions
       (contoursOf blankCv (blurredOf blankCv (enhance blankCv (cv_cvtColor blankCv Photo)))) = []
   \<and> relaxedPass blankCv noOptions
       (contoursOf blankCv (blurredOf blankCv (enhance blankCv (cv_cvtColor blankCv Photo)))) [] = []
   \<and> analyzeOmrImage blankCv noOptions Photo = Inr \<lparr>questions = [], bubbles = []\<rparr>"
proof -
  have a: "firstPass blankCv noOptions
       (contoursOf blankCv (blurredOf blankCv (enhance blankCv (cv_cvtColor blankCv Photo)))) = []"
    by (simp add: blank_fields firstPass_def firstStep_def minArea_def options_fields)
  have b: "relaxedPass blankCv noOptions
       (contoursOf blankCv (blurredOf blankCv (enhance blankCv (cv_cvtColor blankCv Photo)))) [] = []"
    by (simp add: blank_fields relaxedPass_def relaxedStep_def minArea_def options_fields)
  from no_candidates_empty_result[OF a b] a b show ?thesis by blast
qed


subsection \<open>A toolkit whose contrast enhancement returns its input\<close>

lemma clahe_update_basics:
  "circularity (cv\<lparr>cv_CLAHE := f\<rparr>) cnt = circularity cv cnt"
  "mkBubble (cv\<lparr>cv_CLAHE := f\<rparr>) cnt i = mkBubble cv cnt i"
  "maskCounts (cv\<lparr>cv_CLAHE := f\<rparr>) src blurred b = maskCounts cv src blurred b"
  "blurredOf (cv\<lparr>cv_CLAHE := f\<rparr>) gray = blurredOf cv gray"
  "contoursOf (cv\<lparr>cv_CLAHE := f\<rparr>) blurred = contoursOf cv blurred"
  by (simp_all add: circularity_def mkBubble_def maskCounts_def blurredOf_def contoursOf_def)

lemma clahe_update_steps:
  "firstStep (cv\<lparr>cv_CLAHE := f\<rparr>) opts bs ic = firstStep cv opts bs ic"
  "relaxedStep (cv\<lparr>cv_CLAHE := f\<rparr>) opts bs ic = relaxedStep cv opts bs ic"
  "classifyOne (cv\<lparr>cv_CLAHE := f\<rparr>) opts src blurred b = classifyOne cv opts src blurred b"
  by (simp_all add: firstStep_def relaxedStep_def classifyOne_def clahe_update_basics Let_def
      split: prod.splits option.splits)

lemma clahe_update_candidates:
  "candidates (cv\<lparr>cv_CLAHE := f\<rparr>) opts gray = candidates cv opts gray"
proof -
  have "firstStep (cv\<lparr>cv_CLAHE := f\<rparr>) opts = firstStep cv opts"
    "relaxedStep (cv\<lparr>cv_CLAHE := f\<rparr>) opts = relaxedStep cv opts"
    by (intro ext, rule clahe_update_steps)+
  then show ?thesis
    by (simp add: candidates_def extractBubbles_def firstPass_def relaxedPass_def
        clahe_update_basics Let_def)
qed

lemma clahe_update_analyzeFrom:
  "analyzeFrom (cv\<lparr>cv_CLAHE := f\<rparr>) opts src gray = analyzeFrom cv opts src gray"
proof -
  have "classifyOne (cv\<lparr>cv_CLAHE := f\<rparr>) opts src = classifyOne cv opts src"
    by (intro ext) (rule clahe_update_steps)
  then have "filledBubblesOf (cv\<lparr>cv_CLAHE := f\<rparr>) opts src gray = filledBubblesOf cv opts src gray"
    by (simp add: filledBubblesOf_def classify_def clahe_update_candidates clahe_update_basics)
  then show ?thesis by (simp add: analyzeFrom_def rowsOf_def split: sum.splits)
qed

text \<open>
  Claim C8. When the contrast enhancement is missing or throws, the call goes on with
  the grayscale as converted: its outcome is that of the rest of the function on the
  unenhanced grayscale, the same as with an enhancement that returns its input, and it
  is a result, not a throw, for every count that is absent or not negative.
\<close>

theorem clahe_failure_falls_back:
  assumes "cv_CLAHE cv (cv_cvtColor cv src) = None"
  shows "analyzeOmrImage cv opts src = analyzeFrom cv opts src (cv_cvtColor cv src)
       \<and> analyzeOmrImage cv opts src = analyzeOmrImage (cv\<lparr>cv_CLAHE := Some\<rparr>) opts src
       \<and> (validCount opts \<longrightarrow> (\<exists>res. analyzeOmrImage cv opts src = Inr res))"
proof -
  have a: "analyzeOmrImage cv opts src = analyzeFrom cv opts src (cv_cvtColor cv src)"
    using assms by (simp add: analyzeOmrImage_def enhance_def)
  have b: "analyzeOmrImage (cv\<lparr>cv_CLAHE := Some\<rparr>) opts src
         = analyzeFrom cv opts src (cv_cvtColor cv src)"
    by (simp add: analyzeOmrImage_def enhance_def clahe_update_analyzeFrom)
  show ?thesis using a b analyzeFrom_valid[of opts cv src "cv_cvtColor cv src"] by simp
qed

theorem clahe_failure_falls_back_witness:
  "cv_CLAHE sheetCv (cv_cvtColor sheetCv Photo) = None \<and> validCount noOptions
   \<and> analyzeFrom sheetCv noOptions Photo (cv_cvtColor sheetCv Photo) =
       Inr \<lparr>questions =
              [\<lparr>index = 1, selected = Some 1, scores = [0.1, 0.9, 0.1, 0.1]\<rparr>,
               \<lparr>index = 2, selected = Some 2, scores = [0.1, 0.1, 0.9]\<rparr>],
            bubbles = sheetBubbles\<rparr>
   \<and> analyzeOmrImage (sheetCv\<lparr>cv_CLAHE := Some\<rparr>) noOptions Photo =
       Inr \<lparr>questions =
              [\<lparr>index = 1, selected = Some 1, scores = [0.1, 0.9, 0.1, 0.1]\<rparr>,
               \<lparr>index = 2, selected = Some 2, scores = [0.1, 0.1, 0.9]\<rparr>],
            bubbles = sheetBubbles\<rparr>"
proof -
  have h: "cv_CLAHE sheetCv (cv_cvtColor sheetCv Photo) = None" by (simp add: sheet_fields)
  have v: "validCount noOptions" by (simp add: validCount_def options_fields)
  show ?thesis
    using clahe_failure_falls_back[OF h, of noOptions] h v
    unfolding sheet_analyze_noOptions by metis
qed

section \<open>The stages of a call\<close>

lemma step_deterministic:
  "step cv opts c b c' \<Longrightarrow> step cv opts c b' c'' \<Longrightarrow> b = b' \<and> c' = c''"
  by (induction rule: step.induct) (auto elim: step.cases)

lemma final_no_step: "final c \<Longrightarrow> \<not> step cv opts c b c'"
  by (auto elim: step.cases)

lemma run_deterministic:
  "run cv opts c bs c1 \<Longrightarrow> final c1 \<Longrightarrow> run cv opts c bs' c2 \<Longrightarrow> final c2 \<Longrightarrow>
     bs = bs' \<and> c1 = c2"
proof (induction arbitrary: bs' c2 rule: run.induct)
  case (run_done c)
  from run_done.prems(2) show ?case
  proof (cases rule: run.cases)
    case run_done
    then show ?thesis by simp
  next
    case (run_step b c' bs)
    then show ?thesis using final_no_step[OF run_done.prems(1)] by blast
  qed
next
  case (run_step c b c' bs c'')
  from run_step.prems(2) show ?case
  proof (cases rule: run.cases)
    case run_done
    then show ?thesis using final_no_step[of c] run_step.hyps(1) run_step.prems(3) by blast
  next
    case (run_step b2 c2' bs2)
    from step_deterministic[OF run_step.hyps(1) run_step(2)] have e: "b = b2" "c' = c2'" by simp_all
    from run_step.IH[OF run_step.prems(1) run_step(3)[folded e(2)] run_step.prems(3)]
    show ?thesis using e run_step(1) by simp
  qed
qed

lemma run_analyze:
  "run cv opts (Loaded src) (blocksOf cv opts src) (outcome (analyzeOmrImage cv opts src))"
proof -
  let ?gray = "enhance cv (cv_cvtColor cv src)"
  let ?bl = "blurredOf cv ?gray"
  let ?cs = "contoursOf cv ?bl"
  let ?first = "firstPass cv opts ?cs"
  let ?fb = "filledBubblesOf cv opts src ?gray"
  let ?rws = "rowsOf cv opts src ?gray"
  have s1: "step cv opts (Loaded src)
      (if cv_CLAHE cv (cv_cvtColor cv src) = None then NormalizeNoClahe else Normalize)
      (Normalized src ?bl ?cs)"
    by (cases "cv_CLAHE cv (cv_cvtColor cv src)")
      (auto simp: enhance_def intro: step.normalize step.normalize_no_clahe)
  have s2: "step cv opts (Normalized src ?bl ?cs) FirstScan (FirstDone src ?bl ?cs ?first)"
    by (rule step.first_scan)
  have s3: "step cv opts (FirstDone src ?bl ?cs ?first)
      (if length ?first < 10 then RelaxedScan else NoRelaxedScan)
      (Extracted src ?bl (candidates cv opts ?gray))"
    by (auto simp: candidates_def extractBubbles_def Let_def
        intro: step.relaxed_scan step.no_relaxed_scan)
  have s4: "step cv opts (Extracted src ?bl (candidates cv opts ?gray)) Classify (Classified src ?fb)"
    unfolding filledBubblesOf_def by (rule step.classify)
  have s5: "step cv opts (Classified src ?fb) Cluster (Clustered ?fb ?rws)"
    unfolding rowsOf_def by (rule step.cluster)
  have s6: "step cv opts (Clustered ?fb ?rws) Select (outcome (analyzeOmrImage cv opts src))"
    by (cases "selectAll opts ?rws")
      (auto simp: analyzeOmrImage_def analyzeFrom_def intro: step.select_returns step.select_throws)
  show ?thesis
    unfolding blocksOf_def
    by (intro run.run_step[OF s1] run.run_step[OF s2] run.run_step[OF s3] run.run_step[OF s4]
        run.run_step[OF s5] run.run_step[OF s6] run.run_done)
qed

lemma final_outcome: "final (outcome r)"
  by (cases r) simp_all

lemma run_complete:
  assumes "run cv opts (Loaded src) bs out" "final out"
  shows "bs = blocksOf cv opts src \<and> out = outcome (analyzeOmrImage cv opts src)"
  using run_deterministic[OF assms run_analyze final_outcome] .

lemma step_stage:
  "step cv opts c b c' \<Longrightarrow> stageNo c < stageNo c' \<and> (b = RelaxedScan \<longrightarrow> stageNo c = 2)"
  by (induction rule: step.induct) simp_all

lemma run_relaxed_once:
  "run cv opts c bs c' \<Longrightarrow> count_list bs RelaxedScan \<le> (if stageNo c \<le> 2 then 1 else 0)"
proof (induction rule: run.induct)
  case (run_done c)
  then show ?case by simp
next
  case (run_step c b c' bs c'')
  from step_stage[OF run_step.hyps(1)] run_step.IH show ?case
    by (auto split: if_splits)
qed

section \<open>The two extraction passes\<close>

lemma mkBubble_fields:
  "contourIndex (mkBubble cv cnt i) = int i"
  "bub_x (mkBubble cv cnt i) = fst (fst (cv_minEnclosingCircle cv cnt))"
  "bub_y (mkBubble cv cnt i) = snd (fst (cv_minEnclosingCircle cv cnt))"
  "bub_r (mkBubble cv cnt i) = snd (cv_minEnclosingCircle cv cnt)"
  by (simp_all add: mkBubble_def split: prod.splits)

lemma firstPass_snoc:
  "firstPass cv opts (cs @ [c]) = firstStep cv opts (firstPass cv opts cs) (length cs, c)"
  by (simp add: firstPass_def enumerate_append_eq)

lemma relaxedPass_snoc:
  "relaxedPass cv opts (cs @ [c]) bs = relaxedStep cv opts (relaxedPass cv opts cs bs) (length cs, c)"
  by (simp add: relaxedPass_def enumerate_append_eq)

lemma firstStep_cases:
  "firstStep cv opts bs (i, c) = bs \<or> firstStep cv opts bs (i, c) = bs @ [mkBubble cv c i]"
  by (simp add: firstStep_def Let_def)

lemma firstPass_inv:
  "sorted_wrt (<) (map contourIndex (firstPass cv opts cs))
   \<and> (\<forall>b\<in>set (firstPass cv opts cs). \<exists>i<length cs. b = mkBubble cv (cs ! i) i)"
proof (induction cs rule: rev_induct)
  case Nil
  then show ?case by (simp add: firstPass_def)
next
  case (snoc c cs)
  let ?bs = "firstPass cv opts cs"
  have lt: "\<forall>b\<in>set ?bs. contourIndex b < int (length cs)"
    using snoc by (auto simp: mkBubble_fields)
  have mem: "\<forall>b\<in>set ?bs. \<exists>i<length (cs @ [c]). b = mkBubble cv ((cs @ [c]) ! i) i"
    using snoc by (auto simp: nth_append intro: less_SucI)
  from firstStep_cases[of cv opts ?bs "length cs" c] show ?case
  proof
    assume "firstStep cv opts ?bs (length cs, c) = ?bs"
    then show ?thesis using snoc mem by (simp add: firstPass_snoc)
  next
    assume a: "firstStep cv opts ?bs (length cs, c) = ?bs @ [mkBubble cv c (length cs)]"
    have "\<exists>i<length (cs @ [c]). mkBubble cv c (length cs) = mkBubble cv ((cs @ [c]) ! i) i"
      by (intro exI[of _ "length cs"]) simp
    then show ?thesis using snoc lt mem
      by (auto simp: firstPass_snoc a sorted_wrt_append mkBubble_fields)
  qed
qed

lemma relaxedStep_cases:
  "relaxedStep cv opts bs (i, c) = bs
   \<or> (relaxedStep cv opts bs (i, c) = bs @ [mkBubble cv c i]
      \<and> minArea opts * 0.6 \<le> cv_contourArea cv c
      \<and> cv_contourArea cv c \<le> maxArea opts * 2
      \<and> 0.28 \<le> circularity cv c
      \<and> (\<forall>a\<in>set bs. \<not> nearby (fst (fst (cv_minEnclosingCircle cv c)))
            (snd (fst (cv_minEnclosingCircle cv c))) (snd (cv_minEnclosingCircle cv c)) a))"
  by (auto simp: relaxedStep_def Let_def find_None_iff split: prod.splits option.splits)

lemma relaxedAccepts_snoc:
  "relaxedAccepts cv opts cs acc b \<Longrightarrow> relaxedAccepts cv opts (cs @ [c]) acc b"
  unfolding relaxedAccepts_def by (auto simp: nth_append intro: less_SucI)

lemma relaxedAccepts_new:
  assumes "minArea opts * 0.6 \<le> cv_contourArea cv c" "cv_contourArea cv c \<le> maxArea opts * 2"
    "0.28 \<le> circularity cv c"
    "\<forall>a\<in>set acc. \<not> nearby (fst (fst (cv_minEnclosingCircle cv c)))
            (snd (fst (cv_minEnclosingCircle cv c))) (snd (cv_minEnclosingCircle cv c)) a"
  shows "relaxedAccepts cv opts (cs @ [c]) acc (mkBubble cv c (length cs))"
  unfolding relaxedAccepts_def
  using assms by (intro exI[of _ "length cs"]) (auto simp: mkBubble_fields nearby_def not_less)

lemma relaxedPass_inv:
  "\<exists>added. relaxedPass cv opts cs bs = bs @ added
     \<and> (\<forall>k<length added. relaxedAccepts cv opts cs (bs @ take k added) (added ! k))
     \<and> sorted_wrt (<) (map contourIndex added)
     \<and> (\<forall>b\<in>set added. contourIndex b < int (length cs))"
proof (induction cs rule: rev_induct)
  case Nil
  then show ?case by (simp add: relaxedPass_def)
next
  case (snoc c cs)
  then obtain added where ad: "relaxedPass cv opts cs bs = bs @ added"
    "\<forall>k<length added. relaxedAccepts cv opts cs (bs @ take k added) (added ! k)"
    "sorted_wrt (<) (map contourIndex added)"
    "\<forall>b\<in>set added. contourIndex b < int (length cs)" by blast
  have ad2: "\<forall>k<length added. relaxedAccepts cv opts (cs @ [c]) (bs @ take k added) (added ! k)"
    using ad(2) by (auto intro: relaxedAccepts_snoc)
  have ad4: "\<forall>b\<in>set added. contourIndex b < int (length (cs @ [c]))"
    using ad(4) by auto
  from relaxedStep_cases[of cv opts "bs @ added" "length cs" c] show ?case
  proof (elim disjE conjE)
    assume "relaxedStep cv opts (bs @ added) (length cs, c) = bs @ added"
    then have "relaxedPass cv opts (cs @ [c]) bs = bs @ added" by (simp add: relaxedPass_snoc ad(1))
    with ad2 ad(3) ad4 show ?thesis by (intro exI[of _ added] conjI)
  next
    let ?b = "mkBubble cv c (length cs)"
    assume a: "relaxedStep cv opts (bs @ added) (length cs, c) = (bs @ added) @ [?b]"
      and c: "minArea opts * 0.6 \<le> cv_contourArea cv c" "cv_contourArea cv c \<le> maxArea opts * 2"
        "0.28 \<le> circularity cv c"
        "\<forall>a\<in>set (bs @ added). \<not> nearby (fst (fst (cv_minEnclosingCircle cv c)))
            (snd (fst (cv_minEnclosingCircle cv c))) (snd (cv_minEnclosingCircle cv c)) a"
    have r: "relaxedPass cv opts (cs @ [c]) bs = bs @ (added @ [?b])"
      by (simp add: relaxedPass_snoc ad(1) a)
    have n: "relaxedAccepts cv opts (cs @ [c]) (bs @ added) ?b"
      by (rule relaxedAccepts_new[OF c])
    have "\<forall>k<length (added @ [?b]).
        relaxedAccepts cv opts (cs @ [c]) (bs @ take k (added @ [?b])) ((added @ [?b]) ! k)"
    proof (intro allI impI)
      fix k assume "k < length (added @ [?b])"
      then consider "k < length added" | "k = length added" by fastforce
      then show "relaxedAccepts cv opts (cs @ [c]) (bs @ take k (added @ [?b])) ((added @ [?b]) ! k)"
      proof cases
        case 1
        then show ?thesis using ad2 by (simp add: nth_append)
      next
        case 2
        then show ?thesis using n by simp
      qed
    qed
    moreover have "sorted_wrt (<) (map contourIndex (added @ [?b]))"
      using ad(3,4) by (auto simp: sorted_wrt_append mkBubble_fields)
    moreover have "\<forall>b\<in>set (added @ [?b]). contourIndex b < int (length (cs @ [c]))"
      using ad4 by (simp add: mkBubble_fields)
    ultimately show ?thesis using r by (intro exI[of _ "added @ [?b]"] conjI)
  qed
qed


lemma hypot_zero: "hypot 0 0 = 0"
  by (simp add: hypot_def)

lemma relaxedAccepts_not_accepted:
  "relaxedAccepts cv opts cs acc b \<Longrightarrow> b \<notin> set acc"
proof
  assume a: "relaxedAccepts cv opts cs acc b" "b \<in> set acc"
  then have "max 5 (bub_r b * 0.6) \<le> hypot (bub_x b - bub_x b) (bub_y b - bub_y b)"
    unfolding relaxedAccepts_def by blast
  then show False by (simp add: hypot_zero)
qed

lemma relaxedAccepts_index:
  "relaxedAccepts cv opts cs acc b \<Longrightarrow>
     \<exists>i<length cs. b = mkBubble cv (cs ! i) i \<and> contourIndex b = int i"
  unfolding relaxedAccepts_def by (auto simp: mkBubble_fields)

lemma extractBubbles_split:
  "\<exists>added. extractBubbles cv opts cs = firstPass cv opts cs @ added
     \<and> (\<not> length (firstPass cv opts cs) < 10 \<longrightarrow> added = [])
     \<and> (\<forall>k<length added.
            relaxedAccepts cv opts cs (firstPass cv opts cs @ take k added) (added ! k))
     \<and> sorted_wrt (<) (map contourIndex added)"
proof (cases "length (firstPass cv opts cs) < 10")
  case True
  from relaxedPass_inv[of cv opts cs "firstPass cv opts cs"] True show ?thesis
    by (auto simp: extractBubbles_def Let_def)
next
  case False
  then show ?thesis by (intro exI[of _ "[]"]) (simp add: extractBubbles_def Let_def)
qed

lemma extractBubbles_distinct: "distinct (map contourIndex (extractBubbles cv opts cs))"
proof -
  let ?first = "firstPass cv opts cs"
  obtain added where ad: "extractBubbles cv opts cs = ?first @ added"
    "\<forall>k<length added. relaxedAccepts cv opts cs (?first @ take k added) (added ! k)"
    "sorted_wrt (<) (map contourIndex added)"
    using extractBubbles_split[of cv opts cs] by blast
  have d1: "distinct (map contourIndex ?first)"
    using firstPass_inv[of cv opts cs] strict_sorted_iff by blast
  have d2: "distinct (map contourIndex added)"
    using ad(3) strict_sorted_iff by blast
  have "contourIndex a \<noteq> contourIndex b" if ab: "a \<in> set ?first" "b \<in> set added" for a b
  proof
    assume e: "contourIndex a = contourIndex b"
    obtain k where k: "k < length added" "b = added ! k" using ab(2) by (auto simp: in_set_conv_nth)
    note acc = ad(2)[rule_format, OF k(1), folded k(2)]
    obtain i where i: "b = mkBubble cv (cs ! i) i" "contourIndex b = int i"
      using relaxedAccepts_index[OF acc] by blast
    obtain j where j: "a = mkBubble cv (cs ! j) j"
      using firstPass_inv[of cv opts cs] ab(1) by blast
    have "j = i" using e i(2) j by (simp add: mkBubble_fields)
    then have "b \<in> set (?first @ take k added)" using ab(1) i(1) j by simp
    with relaxedAccepts_not_accepted[OF acc] show False by blast
  qed
  then have "set (map contourIndex ?first) \<inter> set (map contourIndex added) = {}" by auto
  with d1 d2 show ?thesis by (simp add: ad(1))
qed

lemma relaxedPass_grows: "set (relaxedPass cv opts cs bs) \<subseteq> set (relaxedPass cv opts (cs @ [c]) bs)"
  using relaxedStep_cases[of cv opts "relaxedPass cv opts cs bs" "length cs" c]
  by (auto simp: relaxedPass_snoc)

lemma relaxedStep_complete:
  assumes "minArea opts * 0.6 \<le> cv_contourArea cv c" "cv_contourArea cv c \<le> maxArea opts * 2"
    "0.28 \<le> circularity cv c"
  shows "mkBubble cv c i \<in> set (relaxedStep cv opts bs (i, c))
       \<or> (\<exists>a\<in>set (relaxedStep cv opts bs (i, c)).
             nearby (fst (fst (cv_minEnclosingCircle cv c)))
               (snd (fst (cv_minEnclosingCircle cv c))) (snd (cv_minEnclosingCircle cv c)) a)"
proof -
  obtain cx cy radius where m: "cv_minEnclosingCircle cv c = ((cx, cy), radius)"
    by (metis prod.collapse)
  have st: "relaxedStep cv opts bs (i, c) =
      (case find (nearby cx cy radius) bs of None \<Rightarrow> bs @ [mkBubble cv c i] | Some b \<Rightarrow> bs)"
    using assms by (simp add: relaxedStep_def Let_def m)
  show ?thesis
  proof (cases "find (nearby cx cy radius) bs")
    case None
    then show ?thesis by (simp add: st)
  next
    case (Some a)
    then have "a \<in> set bs \<and> nearby cx cy radius a" by (auto simp: find_Some_iff)
    then show ?thesis using Some by (auto simp: st m)
  qed
qed

lemma relaxedPass_complete:
  "i < length cs \<Longrightarrow> minArea opts * 0.6 \<le> cv_contourArea cv (cs ! i) \<Longrightarrow>
   cv_contourArea cv (cs ! i) \<le> maxArea opts * 2 \<Longrightarrow> 0.28 \<le> circularity cv (cs ! i) \<Longrightarrow>
     mkBubble cv (cs ! i) i \<in> set (relaxedPass cv opts cs bs)
     \<or> (\<exists>a\<in>set (relaxedPass cv opts cs bs).
           nearby (fst (fst (cv_minEnclosingCircle cv (cs ! i))))
             (snd (fst (cv_minEnclosingCircle cv (cs ! i))))
             (snd (cv_minEnclosingCircle cv (cs ! i))) a)"
proof (induction cs rule: rev_induct)
  case Nil
  then show ?case by simp
next
  case (snoc c cs)
  show ?case
  proof (cases "i < length cs")
    case True
    then have e: "(cs @ [c]) ! i = cs ! i" by (simp add: nth_append)
    from snoc.IH[OF True] snoc.prems(2-4) relaxedPass_grows[of cv opts cs bs c]
    show ?thesis unfolding e by blast
  next
    case False
    then have i: "i = length cs" using snoc.prems(1) by simp
    then have e: "(cs @ [c]) ! i = c" by simp
    from relaxedStep_complete[where opts=opts and cv=cv and c=c
        and bs="relaxedPass cv opts cs bs" and i="length cs"] snoc.prems(2-4)
    show ?thesis unfolding e i relaxedPass_snoc by simp
  qed
qed

section \<open>The relaxed scan in a run\<close>

lemma sheet_blocks:
  "blocksOf sheetCv noOptions Photo =
     [NormalizeNoClahe, FirstScan, RelaxedScan, Classify, Cluster, Select]"
  by (simp add: blocksOf_def sheet_fields sheet_contours sheet_firstPass options_fields
      sheetCandidates_def)

lemma sheet_run:
  "run sheetCv noOptions (Loaded Photo)
     [NormalizeNoClahe, FirstScan, RelaxedScan, Classify, Cluster, Select]
     (Returned \<lparr>questions =
            [\<lparr>index = 1, selected = Some 1, scores = [0.1, 0.9, 0.1, 0.1]\<rparr>,
             \<lparr>index = 2, selected = Some 2, scores = [0.1, 0.1, 0.9]\<rparr>],
          bubbles = sheetBubbles\<rparr>)"
  using run_analyze[of sheetCv noOptions Photo]
  unfolding sheet_blocks sheet_analyze_noOptions by simp

text \<open>
  Claim C4, as the source has it. In a complete run the relaxed scan is executed at most
  once, and it is executed exactly when the first pass accepted fewer than ten
  candidates. The candidates are those of the first pass followed by the additions of
  the relaxed scan; each addition comes from a contour with area within
  \<open>[0.6 * minArea, 2 * maxArea]\<close> and circularity at least 0.28 whose centre is at a
  distance of at least \<open>max 5 (0.6 * radius)\<close> from every bubble accepted before it, and
  every such contour is either added or is closer than that to an accepted bubble. No
  contour is accepted twice.
\<close>

theorem relaxed_pass_policy:
  assumes "run cv opts (Loaded src) bs out" and "final out"
  shows "count_list bs RelaxedScan \<le> 1
     \<and> (RelaxedScan \<in> set bs \<longleftrightarrow>
          length (firstPass cv opts
            (contoursOf cv (blurredOf cv (enhance cv (cv_cvtColor cv src))))) < 10)
     \<and> (\<exists>added.
          candidates cv opts (enhance cv (cv_cvtColor cv src))
            = firstPass cv opts (contoursOf cv (blurredOf cv (enhance cv (cv_cvtColor cv src))))
              @ added
        \<and> (\<not> length (firstPass cv opts
              (contoursOf cv (blurredOf cv (enhance cv (cv_cvtColor cv src))))) < 10
             \<longrightarrow> added = [])
        \<and> (\<forall>k<length added.
              relaxedAccepts cv opts
                (contoursOf cv (blurredOf cv (enhance cv (cv_cvtColor cv src))))
                (firstPass cv opts
                   (contoursOf cv (blurredOf cv (enhance cv (cv_cvtColor cv src))))
                 @ take k added)
                (added ! k)))
     \<and> (length (firstPass cv opts
            (contoursOf cv (blurredOf cv (enhance cv (cv_cvtColor cv src))))) < 10 \<longrightarrow>
        (\<forall>i<length (contoursOf cv (blurredOf cv (enhance cv (cv_cvtColor cv src)))).
           minArea opts * 0.6
             \<le> cv_contourArea cv (contoursOf cv (blurredOf cv (enhance cv (cv_cvtColor cv src))) ! i)
           \<and> cv_contourArea cv (contoursOf cv (blurredOf cv (enhance cv (cv_cvtColor cv src))) ! i)
             \<le> maxArea opts * 2
           \<and> 0.28
             \<le> circularity cv (contoursOf cv (blurredOf cv (enhance cv (cv_cvtColor cv src))) ! i)
           \<longrightarrow>
             mkBubble cv (contoursOf cv (blurredOf cv (enhance cv (cv_cvtColor cv src))) ! i) i
               \<in> set (candidates cv opts (enhance cv (cv_cvtColor cv src)))
           \<or> (\<exists>a\<in>set (candidates cv opts (enhance cv (cv_cvtColor cv src))).
                 max 5 (bub_r (mkBubble cv
                     (contoursOf cv (blurredOf cv (enhance cv (cv_cvtColor cv src))) ! i) i) * 0.6)
                 > hypot
                     (bub_x a - bub_x (mkBubble cv
                        (contoursOf cv (blurredOf cv (enhance cv (cv_cvtColor cv src))) ! i) i))
                     (bub_y a - bub_y (mkBubble cv
                        (contoursOf cv (blurredOf cv (enhance cv (cv_cvtColor cv src))) ! i) i)))))
     \<and> distinct (map contourIndex (candidates cv opts (enhance cv (cv_cvtColor cv src))))"
proof -
  let ?cs = "contoursOf cv (blurredOf cv (enhance cv (cv_cvtColor cv src)))"
  let ?first = "firstPass cv opts ?cs"
  let ?cand = "candidates cv opts (enhance cv (cv_cvtColor cv src))"
  have d: "length ?first < 10 \<longrightarrow>
        (\<forall>i<length ?cs.
           minArea opts * 0.6 \<le> cv_contourArea cv (?cs ! i)
           \<and> cv_contourArea cv (?cs ! i) \<le> maxArea opts * 2
           \<and> 0.28 \<le> circularity cv (?cs ! i)
           \<longrightarrow>
             mkBubble cv (?cs ! i) i \<in> set ?cand
           \<or> (\<exists>a\<in>set ?cand.
                 max 5 (bub_r (mkBubble cv (?cs ! i) i) * 0.6)
                 > hypot (bub_x a - bub_x (mkBubble cv (?cs ! i) i))
                     (bub_y a - bub_y (mkBubble cv (?cs ! i) i))))"
  proof (intro impI allI)
    fix i
    assume l: "length ?first < 10" and i: "i < length ?cs"
      and h: "minArea opts * 0.6 \<le> cv_contourArea cv (?cs ! i)
           \<and> cv_contourArea cv (?cs ! i) \<le> maxArea opts * 2
           \<and> 0.28 \<le> circularity cv (?cs ! i)"
    have e: "?cand = relaxedPass cv opts ?cs ?first"
      using l by (simp add: candidates_def extractBubbles_def Let_def)
    from relaxedPass_complete[OF i, of opts cv ?first] h
    show "mkBubble cv (?cs ! i) i \<in> set ?cand
           \<or> (\<exists>a\<in>set ?cand.
                 max 5 (bub_r (mkBubble cv (?cs ! i) i) * 0.6)
                 > hypot (bub_x a - bub_x (mkBubble cv (?cs ! i) i))
                     (bub_y a - bub_y (mkBubble cv (?cs ! i) i)))"
      unfolding e nearby_def mkBubble_fields by blast
  qed
  note c = run_complete[OF assms]
  have a: "count_list bs RelaxedScan \<le> 1" using run_relaxed_once[OF assms(1)] by simp
  have b: "RelaxedScan \<in> set bs \<longleftrightarrow> length (firstPass cv opts ?cs) < 10"
    using c by (simp add: blocksOf_def)
  have s: "\<exists>added. ?cand = ?first @ added
        \<and> (\<not> length ?first < 10 \<longrightarrow> added = [])
        \<and> (\<forall>k<length added. relaxedAccepts cv opts ?cs (?first @ take k added) (added ! k))"
    using extractBubbles_split[of cv opts ?cs] unfolding candidates_def by blast
  have e: "distinct (map contourIndex ?cand)"
    using extractBubbles_distinct[of cv opts ?cs] unfolding candidates_def .
  from a b s d e show ?thesis by (intro conjI)
qed

theorem relaxed_pass_policy_witness:
  "run sheetCv noOptions (Loaded Photo)
     [NormalizeNoClahe, FirstScan, RelaxedScan, Classify, Cluster, Select]
     (Returned \<lparr>questions =
            [\<lparr>index = 1, selected = Some 1, scores = [0.1, 0.9, 0.1, 0.1]\<rparr>,
             \<lparr>index = 2, selected = Some 2, scores = [0.1, 0.1, 0.9]\<rparr>],
          bubbles = sheetBubbles\<rparr>)
   \<and> final (Returned \<lparr>questions =
            [\<lparr>index = 1, selected = Some 1, scores = [0.1, 0.9, 0.1, 0.1]\<rparr>,
             \<lparr>index = 2, selected = Some 2, scores = [0.1, 0.1, 0.9]\<rparr>],
          bubbles = sheetBubbles\<rparr> :: (sheet, outline) config)
   \<and> length (firstPass sheetCv noOptions sheetContours) = 6
   \<and> candidates sheetCv noOptions Gray = sheetCandidates
   \<and> distinct (map contourIndex sheetCandidates)"
proof -
  have f: "final (Returned \<lparr>questions =
            [\<lparr>index = 1, selected = Some 1, scores = [0.1, 0.9, 0.1, 0.1]\<rparr>,
             \<lparr>index = 2, selected = Some 2, scores = [0.1, 0.1, 0.9]\<rparr>],
          bubbles = sheetBubbles\<rparr> :: (sheet, outline) config)" by simp
  have l: "length (firstPass sheetCv noOptions sheetContours) = 6"
    by (simp add: sheet_firstPass options_fields sheetCandidates_def)
  have c: "candidates sheetCv noOptions Gray = sheetCandidates"
    by (rule sheet_candidates) (simp_all add: options_fields)
  have "distinct (map contourIndex (candidates sheetCv noOptions (enhance sheetCv (cv_cvtColor sheetCv Photo))))"
    using relaxed_pass_policy[OF sheet_run f] by blast
  then have "distinct (map contourIndex sheetCandidates)" by (simp add: sheet_enhance c)
  with sheet_run f l c show ?thesis by blast
qed

lemma touching_fields:
  "contoursOf touchingCv m = [(300, 62, (0, 0), 10), (100, 36, (5, 0), 5)]"
  "cv_contourArea touchingCv c = fst c" "cv_minEnclosingCircle touchingCv c = snd (snd c)"
  "circularity touchingCv c = circularity sheetCv c"
  by (simp_all add: touchingCv_def contoursOf_def sheetCv_def circularity_def)

text \<open>
  Claim C4 as stated asks for a distance greater than the bound. A contour of radius 5
  whose centre is exactly 5 pixels from an accepted centre is added: the test of line
  693 is \<^verbatim>\<open>hypot(...) < Math.max(5, radius * 0.6)\<close>, which a distance equal to the bound
  does not meet.
\<close>

theorem relaxed_pass_accepts_at_the_bound:
  "firstPass touchingCv noOptions (contoursOf touchingCv (blurredOf touchingCv Gray))
     = [detectedAt 0 0 0 10]
   \<and> candidates touchingCv noOptions Gray = [detectedAt 0 0 0 10, detectedAt 1 5 0 5]
   \<and> hypot (bub_x (detectedAt 0 0 0 10) - bub_x (detectedAt 1 5 0 5))
           (bub_y (detectedAt 0 0 0 10) - bub_y (detectedAt 1 5 0 5))
       = max 5 (bub_r (detectedAt 1 5 0 5) * 0.6)
   \<and> \<not> max 5 (bub_r (detectedAt 1 5 0 5) * 0.6)
         < hypot (bub_x (detectedAt 0 0 0 10) - bub_x (detectedAt 1 5 0 5))
             (bub_y (detectedAt 0 0 0 10) - bub_y (detectedAt 1 5 0 5))"
proof -
  have c1: "\<not> circularity sheetCv (300, 62, (0, 0), 10) < 0.35"
    "\<not> circularity sheetCv (300, 62, (0, 0), 10) < 0.28"
    "\<not> circularity sheetCv (100, 36, (5, 0), 5) < 0.28"
    using sheet_circularity(1)[of "((0, 0), 10)"] sheet_circularity(2)[of "((5, 0), 5)"]
    by simp_all
  have f: "firstPass touchingCv noOptions (contoursOf touchingCv (blurredOf touchingCv Gray))
     = [detectedAt 0 0 0 10]"
    using c1
    by (simp add: touching_fields firstPass_def firstStep_def minArea_def maxArea_def
        options_fields mkBubble_def detectedAt_def)
  have r: "relaxedPass touchingCv noOptions (contoursOf touchingCv (blurredOf touchingCv Gray))
      [detectedAt 0 0 0 10] = [detectedAt 0 0 0 10, detectedAt 1 5 0 5]"
    using c1
    by (simp add: touching_fields relaxedPass_def relaxedStep_def minArea_def maxArea_def
        options_fields mkBubble_def detectedAt_def nearby_iff)
  have c: "candidates touchingCv noOptions Gray = [detectedAt 0 0 0 10, detectedAt 1 5 0 5]"
    by (simp add: candidates_def extractBubbles_def f r)
  have h: "hypot (0 - 5) (0 - 0) = 5"
    using real_sqrt_abs2[of 5] by (simp add: hypot_def)
  show ?thesis using f c h by (simp add: detectedAt_def)
qed

end
